theory Spec2Isabelle
  imports Complex_Main "HOL-Library.Sublist" "HOL-Library.Multiset"
begin

text \<open>
  The discharge parser of \<^verbatim>\<open>server/src/services/pdfParser.ts\<close>: \<^verbatim>\<open>parseDischargeText\<close>
  cuts the text of a discharge list into normalized lines, reads the hospital and the
  report date from the header line, and turns every line with an Epic identifier into a
  record with \<^verbatim>\<open>parseDischargeRow\<close>, which calls \<^verbatim>\<open>splitPcpAndInsurance\<close> and
  \<^verbatim>\<open>normalizeProviderName\<close>. Each function below has the name of the function, constant
  or local it embeds; each regular expression is a function that tries it at the start of
  a string, and \<open>find_first\<close> scans for its first match.
\<close>

section \<open>Strings\<close>

text \<open>
  A string of the parser is a list of code units. The embedding covers the strings whose
  code units lie in U+0000..U+00FF, one \<^typ>\<open>char\<close> each. In that range the class
  \<^verbatim>\<open>\s\<close> of the regular expressions and the characters removed by \<^verbatim>\<open>trim()\<close> are the
  same seven code units; \<^verbatim>\<open>\d\<close> is \<^verbatim>\<open>[0-9]\<close>, \<^verbatim>\<open>\w\<close> is \<^verbatim>\<open>[A-Za-z0-9_]\<close>, and the
  dot of a regular expression matches everything but the line terminators LF and CR.
\<close>

definition is_space :: "char \<Rightarrow> bool" where
  "is_space c \<longleftrightarrow>
     c \<in> set [CHR 0x09, CHR 0x0A, CHR 0x0B, CHR 0x0C, CHR 0x0D, CHR 0x20, CHR 0xA0]"

definition is_line_terminator :: "char \<Rightarrow> bool" where
  "is_line_terminator c \<longleftrightarrow> c = CHR 0x0A \<or> c = CHR 0x0D"

definition is_digit :: "char \<Rightarrow> bool" where
  "is_digit c \<longleftrightarrow> c \<in> set ''0123456789''"

definition is_upper :: "char \<Rightarrow> bool" where
  "is_upper c \<longleftrightarrow> c \<in> set ''ABCDEFGHIJKLMNOPQRSTUVWXYZ''"

definition is_lower :: "char \<Rightarrow> bool" where
  "is_lower c \<longleftrightarrow> c \<in> set ''abcdefghijklmnopqrstuvwxyz''"

definition is_word :: "char \<Rightarrow> bool" where
  "is_word c \<longleftrightarrow> is_upper c \<or> is_lower c \<or> is_digit c \<or> c = CHR ''_''"

text \<open>
  \<^verbatim>\<open>toLowerCase\<close> and \<^verbatim>\<open>toUpperCase\<close> on one code unit. Lower-casing moves A..Z and
  the capital letters U+00C0..U+00DE (the sign U+00D7 apart) up by 32. Upper-casing moves
  a..z and U+00E0..U+00FE (U+00F7 apart) down by 32; the three code units whose capital
  is not one code unit of the range (U+00B5, U+00DF, U+00FF) are left alone: the parser
  upper-cases only a matched credential, which has none of them.
\<close>

definition toLowerChar :: "char \<Rightarrow> char" where
  "toLowerChar c =
     (let n = (of_char c :: nat)
      in if (65 \<le> n \<and> n \<le> 90) \<or> (192 \<le> n \<and> n \<le> 222 \<and> n \<noteq> 215)
         then char_of (n + 32) else c)"

definition toUpperChar :: "char \<Rightarrow> char" where
  "toUpperChar c =
     (let n = (of_char c :: nat)
      in if (97 \<le> n \<and> n \<le> 122) \<or> (224 \<le> n \<and> n \<le> 254 \<and> n \<noteq> 247)
         then char_of (n - 32) else c)"

definition toLowerCase :: "string \<Rightarrow> string" where
  "toLowerCase s = map toLowerChar s"

definition toUpperCase :: "string \<Rightarrow> string" where
  "toUpperCase s = map toUpperChar s"

text \<open>\<^verbatim>\<open>s.trim()\<close>: the white space at both ends goes.\<close>

definition trim :: "string \<Rightarrow> string" where
  "trim s = rev (dropWhile is_space (rev (dropWhile is_space s)))"

text \<open>
  \<^verbatim>\<open>s.startsWith(p)\<close>, \<^verbatim>\<open>s.endsWith(p)\<close>, and the match of a literal under the flag
  \<^verbatim>\<open>i\<close>: without the flag \<^verbatim>\<open>u\<close> two code units match when their capitals are equal.
  The literals of the parser are ASCII, and no code unit outside ASCII has an ASCII
  capital.
\<close>

definition startsWith :: "string \<Rightarrow> string \<Rightarrow> bool" where
  "startsWith s p \<longleftrightarrow> prefix p s"

definition endsWith :: "string \<Rightarrow> string \<Rightarrow> bool" where
  "endsWith s p \<longleftrightarrow> suffix p s"

definition startsWith_ci :: "string \<Rightarrow> string \<Rightarrow> bool" where
  "startsWith_ci s p \<longleftrightarrow>
     length p \<le> length s \<and> toUpperCase (take (length p) s) = toUpperCase p"

text \<open>
  The first and the last position at which a test holds of the rest of the string: the
  scan of an unanchored regular expression, of \<^verbatim>\<open>indexOf\<close> and of \<^verbatim>\<open>lastIndexOf\<close>.
\<close>

fun find_first :: "(string \<Rightarrow> bool) \<Rightarrow> string \<Rightarrow> nat option" where
  "find_first P [] = (if P [] then Some 0 else None)"
| "find_first P (c # cs) = (if P (c # cs) then Some 0 else map_option Suc (find_first P cs))"

fun find_last :: "(string \<Rightarrow> bool) \<Rightarrow> string \<Rightarrow> nat option" where
  "find_last P [] = (if P [] then Some 0 else None)"
| "find_last P (c # cs) =
     (case find_last P cs of
        Some i \<Rightarrow> Some (Suc i)
      | None \<Rightarrow> if P (c # cs) then Some 0 else None)"

text \<open>
  \<^verbatim>\<open>s.indexOf(p)\<close>, \<^verbatim>\<open>s.indexOf(p, from)\<close> and \<^verbatim>\<open>s.lastIndexOf(p)\<close> return -1 when \<open>p\<close>
  does not occur; \<open>from\<close> is clamped to the string. \<^verbatim>\<open>s.includes(p)\<close> tells whether
  \<open>p\<close> occurs.
\<close>

definition indexOf :: "string \<Rightarrow> string \<Rightarrow> int" where
  "indexOf s p = (case find_first (\<lambda>t. startsWith t p) s of None \<Rightarrow> - 1 | Some i \<Rightarrow> int i)"

definition indexOf_from :: "string \<Rightarrow> string \<Rightarrow> int \<Rightarrow> int" where
  "indexOf_from s p from =
     (let k = nat (min (max from 0) (int (length s)))
      in case find_first (\<lambda>t. startsWith t p) (drop k s) of
           None \<Rightarrow> - 1
         | Some i \<Rightarrow> int (k + i))"

definition lastIndexOf :: "string \<Rightarrow> string \<Rightarrow> int" where
  "lastIndexOf s p = (case find_last (\<lambda>t. startsWith t p) s of None \<Rightarrow> - 1 | Some i \<Rightarrow> int i)"

definition includes_str :: "string \<Rightarrow> string \<Rightarrow> bool" where
  "includes_str s p \<longleftrightarrow> find_first (\<lambda>t. startsWith t p) s \<noteq> None"

text \<open>
  \<^verbatim>\<open>s.substring(a, b)\<close> and \<^verbatim>\<open>s.substring(a)\<close>: both ends are clamped to the string, and
  they are swapped when the first is the larger.
\<close>

definition substring :: "string \<Rightarrow> int \<Rightarrow> int \<Rightarrow> string" where
  "substring s a b =
     (let n = int (length s);
          a' = min (max a 0) n;
          b' = min (max b 0) n;
          lo = min a' b';
          hi = max a' b'
      in take (nat (hi - lo)) (drop (nat lo) s))"

definition substring_from :: "string \<Rightarrow> int \<Rightarrow> string" where
  "substring_from s a = substring s a (int (length s))"

section \<open>The line normalizer\<close>

text \<open>\<^verbatim>\<open>text.split('\n')\<close>: the pieces between the line feeds, at least one.\<close>

fun split_lines :: "string \<Rightarrow> string list" where
  "split_lines [] = [] # []"
| "split_lines (c # cs) =
     (if c = CHR 0x0A then [] # split_lines cs
      else (case split_lines cs of
              [] \<Rightarrow> [c] # []
            | l # ls \<Rightarrow> (c # l) # ls))"

text \<open>
  \<^verbatim>\<open>l.replace(/\s*\|\s*/g, ' ')\<close>. At a position the expression matches when the white
  space from there runs up to a bar; the match takes the bar and the white space after
  it. The scan goes left to right and goes on after each match.
\<close>

function strip_pipes :: "string \<Rightarrow> string" where
  "strip_pipes [] = []"
| "strip_pipes (c # cs) =
     (case dropWhile is_space (c # cs) of
        [] \<Rightarrow> c # strip_pipes cs
      | d # ds \<Rightarrow>
          if d = CHR ''|'' then CHR '' '' # strip_pipes (dropWhile is_space ds)
          else c # strip_pipes cs)"
  by pat_completeness auto
termination
proof (relation "measure length")
  show "wf (measure length)" by simp
next
  fix c :: char and cs
  show "(cs, c # cs) \<in> measure length" by simp
next
  fix c :: char and cs d ds
  assume h: "dropWhile is_space (c # cs) = d # ds"
  have "length (dropWhile is_space ds) \<le> length ds"
    by (rule length_dropWhile_le)
  moreover have "length (d # ds) \<le> length (c # cs)"
    unfolding h [symmetric] by (rule length_dropWhile_le)
  ultimately show "(dropWhile is_space ds, c # cs) \<in> measure length" by simp
next
  fix c :: char and cs
  show "(cs, c # cs) \<in> measure length" by simp
qed

text \<open>
  \<^verbatim>\<open>.replace(/\s{2,}/g, ' ')\<close>: a run of two or more white-space characters becomes one
  blank.
\<close>

function collapse_spaces :: "string \<Rightarrow> string" where
  "collapse_spaces [] = []"
| "collapse_spaces [c] = [c]"
| "collapse_spaces (c # d # cs) =
     (if is_space c \<and> is_space d then CHR '' '' # collapse_spaces (dropWhile is_space cs)
      else c # collapse_spaces (d # cs))"
  by pat_completeness auto
termination
proof (relation "measure length")
  show "wf (measure length)" by simp
next
  fix c d :: char and cs
  have "length (dropWhile is_space cs) \<le> length cs"
    by (rule length_dropWhile_le)
  then show "(dropWhile is_space cs, c # d # cs) \<in> measure length" by simp
next
  fix c d :: char and cs
  show "(d # cs, c # d # cs) \<in> measure length" by simp
qed

definition normalize_line :: "string \<Rightarrow> string" where
  "normalize_line l = trim (collapse_spaces (strip_pipes l))"

text \<open>The constant \<^verbatim>\<open>lines\<close> of \<^verbatim>\<open>parseDischargeText\<close>.\<close>

definition normalized_lines :: "string \<Rightarrow> string list" where
  "normalized_lines text = filter (\<lambda>l. length l > 0) (map normalize_line (split_lines text))"

section \<open>The header extractor\<close>

text \<open>
  The end \<^verbatim>\<open>\s+(.+)$\<close> of two of the expressions, tried at the start of a string. The
  greedy \<^verbatim>\<open>\s+\<close> takes the whole run of white space; the dot stops at a line terminator,
  so what follows the run must be free of them. When nothing follows the run,
  backtracking hands the last white-space character of the run to the group.
\<close>

definition match_ws_rest :: "string \<Rightarrow> string option" where
  "match_ws_rest r =
     (let rest = dropWhile is_space r
      in if rest = r then None
         else if rest \<noteq> [] then
           (if list_ex is_line_terminator rest then None else Some rest)
         else if 2 \<le> length r \<and> \<not> is_line_terminator (last r) then Some [last r]
         else None)"

text \<open>
  \<^verbatim>\<open>/^(.+?)\s+Discharges\s+for\s+(.+)$/i\<close>: the lazy first group grows one character at
  a time until the rest of the expression matches what follows it.
\<close>

definition header_tail :: "string \<Rightarrow> string option" where
  "header_tail r =
     (let r1 = dropWhile is_space r
      in if r1 = r \<or> \<not> startsWith_ci r1 ''Discharges'' then None
         else (let r2 = drop 10 r1; r3 = dropWhile is_space r2
               in if r3 = r2 \<or> \<not> startsWith_ci r3 ''for'' then None
                  else match_ws_rest (drop 3 r3)))"

fun headerMatch_from :: "string \<Rightarrow> string \<Rightarrow> (string \<times> string) option" where
  "headerMatch_from g [] = None"
| "headerMatch_from g (c # cs) =
     (if is_line_terminator c then None
      else (case header_tail cs of
              Some d \<Rightarrow> Some (g @ [c], d)
            | None \<Rightarrow> headerMatch_from (g @ [c]) cs))"

definition headerMatch :: "string \<Rightarrow> (string \<times> string) option" where
  "headerMatch l = headerMatch_from [] l"

definition is_header_line :: "string \<Rightarrow> bool" where
  "is_header_line l \<longleftrightarrow>
     includes_str (toLowerCase l) ''hospital'' \<and> includes_str (toLowerCase l) ''discharges''"

definition extractHeader :: "string list \<Rightarrow> string \<times> string" where
  "extractHeader lines =
     (case find is_header_line lines of
        None \<Rightarrow> (''Unknown Hospital'', [])
      | Some headerLine \<Rightarrow>
          (if headerLine = [] then (''Unknown Hospital'', [])
           else (case headerMatch headerLine of
                   None \<Rightarrow> (''Unknown Hospital'', [])
                 | Some (g1, g2) \<Rightarrow> (trim g1, trim g2))))"

section \<open>The anchors of a row\<close>

definition digits_at :: "nat \<Rightarrow> string \<Rightarrow> bool" where
  "digits_at n t \<longleftrightarrow> n \<le> length t \<and> list_all is_digit (take n t)"

text \<open>\<^verbatim>\<open>/EP\d{9}/\<close> at the start of a string.\<close>

definition epic_at :: "string \<Rightarrow> bool" where
  "epic_at t \<longleftrightarrow> startsWith t ''EP'' \<and> digits_at 9 (drop 2 t)"

text \<open>\<^verbatim>\<open>/(\d{2}-\d{2}-\d{4})/\<close> at the start of a string.\<close>

definition date_at :: "string \<Rightarrow> bool" where
  "date_at t \<longleftrightarrow>
     digits_at 2 t \<and> startsWith (drop 2 t) ''-'' \<and> digits_at 2 (drop 3 t) \<and>
     startsWith (drop 5 t) ''-'' \<and> digits_at 4 (drop 6 t)"

text \<open>\<^verbatim>\<open>(\d{3}-\d{3}-\d{4})\<close> at the start of a string.\<close>

definition phone_at :: "string \<Rightarrow> bool" where
  "phone_at t \<longleftrightarrow>
     digits_at 3 t \<and> startsWith (drop 3 t) ''-'' \<and> digits_at 3 (drop 4 t) \<and>
     startsWith (drop 7 t) ''-'' \<and> digits_at 4 (drop 8 t)"

text \<open>The first match of an unanchored expression whose matches are \<open>n\<close> long.\<close>

definition first_match :: "(string \<Rightarrow> bool) \<Rightarrow> nat \<Rightarrow> string \<Rightarrow> string option" where
  "first_match P n line =
     (case find_first P line of None \<Rightarrow> None | Some i \<Rightarrow> Some (take n (drop i line)))"

text \<open>
  \<^verbatim>\<open>afterEpic.match(/^\s*\(missing\)\s*/i)\<close>, the whole match;
  \<^verbatim>\<open>afterEpic.match(/^\s*(\d{3}-\d{3}-\d{4})/)\<close> and
  \<^verbatim>\<open>afterEpic.match(/^\s*(\d{10})(?=\s|[A-Z])/)\<close>, the group.
\<close>

definition missingPhoneMatch :: "string \<Rightarrow> string option" where
  "missingPhoneMatch a =
     (let r = dropWhile is_space a
      in if startsWith_ci r ''(missing)''
         then Some (takeWhile is_space a @ take 9 r @ takeWhile is_space (drop 9 r))
         else None)"

definition fmtPhoneMatch :: "string \<Rightarrow> string option" where
  "fmtPhoneMatch a =
     (let r = dropWhile is_space a in if phone_at r then Some (take 12 r) else None)"

definition rawPhoneMatch :: "string \<Rightarrow> string option" where
  "rawPhoneMatch a =
     (let r = dropWhile is_space a
      in if digits_at 10 r \<and>
            (case drop 10 r of [] \<Rightarrow> False | c # _ \<Rightarrow> is_space c \<or> is_upper c)
         then Some (take 10 r) else None)"

section \<open>The name normalizer\<close>

text \<open>
  \<^verbatim>\<open>/^([^,]+),\s+(MD|DO|PA|NP|PA-C|RN|BSN)\s+(.+)$/i\<close>. The first group is the text before
  the first comma. After the comma and its white space the credentials are tried in the
  order of the alternation; one is taken when the rest of the expression matches after
  it, so \<^verbatim>\<open>PA-C\<close> is reached when \<^verbatim>\<open>PA\<close> is followed by the hyphen.
\<close>

fun first_credential ::
  "string list \<Rightarrow> string \<Rightarrow> string \<Rightarrow> (string \<times> string \<times> string) option" where
  "first_credential [] g1 r = None"
| "first_credential (tok # toks) g1 r =
     (if startsWith_ci r tok then
        (case match_ws_rest (drop (length tok) r) of
           Some g3 \<Rightarrow> Some (g1, take (length tok) r, g3)
         | None \<Rightarrow> first_credential toks g1 r)
      else first_credential toks g1 r)"

definition wrongOrderMatch :: "string \<Rightarrow> (string \<times> string \<times> string) option" where
  "wrongOrderMatch t =
     (let g1 = takeWhile (\<lambda>c. c \<noteq> CHR '','') t;
          r = dropWhile (\<lambda>c. c \<noteq> CHR '','') t
      in if g1 = [] \<or> r = [] then None
         else (let r1 = tl r; r2 = dropWhile is_space r1
               in if r2 = r1 then None
                  else first_credential
                         [''MD'', ''DO'', ''PA'', ''NP'', ''PA-C'', ''RN'', ''BSN''] g1 r2))"

definition normalizeProviderName :: "string \<Rightarrow> string" where
  "normalizeProviderName raw =
     (if raw = [] then []
      else (let trimmed = trim raw
            in case wrongOrderMatch trimmed of
                 Some (g1, g2, g3) \<Rightarrow> g1 @ '', '' @ g3 @ '' '' @ toUpperCase g2
               | None \<Rightarrow> trimmed))"

section \<open>The middle-segment splitter\<close>

definition INSURANCE_PATTERNS :: "string list" where
  "INSURANCE_PATTERNS =
     [''BCBS'', ''Blue Cross'', ''Aetna'', ''Aetna Health'', ''Humana'', ''Humana Health'',
      ''UnitedHealthcare'', ''United'', ''Cigna'', ''Medicare'', ''Medicaid'',
      ''Self Pay'', ''Self-Pay'', ''Tricare'', ''Kaiser'']"

text \<open>
  \<^verbatim>\<open>[...INSURANCE_PATTERNS].sort((a, b) => b.length - a.length)\<close>: a stable sort, the
  longer pattern first.
\<close>

definition sorted_patterns :: "string list" where
  "sorted_patterns = sort_key (\<lambda>p. - int (length p)) INSURANCE_PATTERNS"

text \<open>
  \<^verbatim>\<open>/\b(MD|DO|PA|NP|RN)\b/i.test(text)\<close>. A token starts and ends with a letter, so the
  boundary before it is the start of the text or a character outside \<^verbatim>\<open>\w\<close>, and the
  boundary after it is the end of the text or such a character.
\<close>

definition credential_at :: "string \<Rightarrow> bool" where
  "credential_at t \<longleftrightarrow>
     list_ex (\<lambda>tok. startsWith_ci t tok) [''MD'', ''DO'', ''PA'', ''NP'', ''RN''] \<and>
     (case drop 2 t of [] \<Rightarrow> True | d # _ \<Rightarrow> \<not> is_word d)"

fun credential_scan :: "bool \<Rightarrow> string \<Rightarrow> bool" where
  "credential_scan prev_word [] = False"
| "credential_scan prev_word (c # cs) =
     (if \<not> prev_word \<and> credential_at (c # cs) then True
      else credential_scan (is_word c) cs)"

definition has_credential :: "string \<Rightarrow> bool" where
  "has_credential text = credential_scan False text"

fun first_pattern :: "string list \<Rightarrow> string \<Rightarrow> (string option \<times> string) option" where
  "first_pattern [] text = None"
| "first_pattern (pattern # ps) text =
     (let idx = indexOf text pattern
      in if idx \<ge> 0 then
           (let pcp = trim (substring text 0 idx)
            in Some (if pcp = [] then None else Some pcp, pattern))
         else first_pattern ps text)"

definition splitPcpAndInsurance :: "string \<Rightarrow> string option \<times> string" where
  "splitPcpAndInsurance text =
     (if text = [] then (None, ''Unknown'')
      else (case first_pattern sorted_patterns text of
              Some r \<Rightarrow> r
            | None \<Rightarrow>
                if has_credential text then (Some (trim text), ''Unknown'')
                else (None, if trim text = [] then ''Unknown'' else trim text)))"

section \<open>The row extractor\<close>

text \<open>
  The confidence is a double in the source. Every penalty is a multiple of 0.1 and the
  result is \<^verbatim>\<open>Math.max(0, Math.round(confidence * 100) / 100)\<close>; the rounding errors of
  the subtractions are far below the half unit that \<^verbatim>\<open>Math.round\<close> decides on, so the
  result is the double nearest to the exact decimal. The embedding computes with the
  exact decimals; \<^const>\<open>round\<close> rounds a half upwards as \<^verbatim>\<open>Math.round\<close> does.
\<close>

definition DISPOSITIONS :: "string list" where
  "DISPOSITIONS =
     [''Home'', ''SNF'', ''HHS'', ''Rehab'', ''AMA'', ''Hospice'', ''LTAC'', ''Deceased'']"

text \<open>
  Step 3 of \<^verbatim>\<open>parseDischargeRow\<close>: the phone number, and the text
  \<^verbatim>\<open>phoneMatch[1] || phoneMatch[0]\<close> of the match that step 6 looks for again (absent
  when \<^verbatim>\<open>phoneMatch\<close> is null). The local \<^verbatim>\<open>phoneConfidence\<close> is written and never read.
\<close>

definition extractPhone :: "string \<Rightarrow> string \<Rightarrow> string option \<times> string option" where
  "extractPhone line epicId =
     (let epicEndIdx = (if epicId \<noteq> [] then indexOf line epicId + int (length epicId) else - 1)
      in if epicEndIdx > 0 then
           (let afterEpic = substring_from line epicEndIdx;
                missingPhone = missingPhoneMatch afterEpic;
                fmtPhone = (if missingPhone \<noteq> None then None else fmtPhoneMatch afterEpic)
            in case fmtPhone of
                 Some p \<Rightarrow> (Some p, Some p)
               | None \<Rightarrow>
                   (case rawPhoneMatch afterEpic of
                      Some d \<Rightarrow>
                        (Some (take 3 d @ ''-'' @ take 3 (drop 3 d) @ ''-'' @ drop 6 d), Some d)
                    | None \<Rightarrow> (None, missingPhone)))
         else (None, None))"

text \<open>Step 4: the first disposition that the trimmed line ends with.\<close>

definition extractDisposition :: "string \<Rightarrow> string option" where
  "extractDisposition line = find (\<lambda>disp. endsWith (trim line) disp) DISPOSITIONS"

text \<open>Step 5: the patient name, empty when there is none.\<close>

definition extractName :: "string \<Rightarrow> string \<Rightarrow> string" where
  "extractName line epicId =
     (if epicId \<noteq> [] then trim (substring line 0 (indexOf line epicId)) else [])"

text \<open>
  Step 6, under \<^verbatim>\<open>dateMatch && epicId\<close>: the attending physician, the primary care
  provider and the insurance.
\<close>

definition extractMiddle ::
  "string \<Rightarrow> string \<Rightarrow> string \<Rightarrow> string option \<Rightarrow> string \<Rightarrow> string \<times> string option \<times> string"
where
  "extractMiddle line epicId dischargeDate phoneMatch disposition =
     (let dateIdx = indexOf line dischargeDate;
          epicEnd = indexOf line epicId + int (length epicId);
          attendingStart =
            (case phoneMatch of
               None \<Rightarrow> epicEnd
             | Some matchStr \<Rightarrow>
                 (let phoneIdx = indexOf_from line matchStr epicEnd
                  in if phoneIdx \<ge> 0 then phoneIdx + int (length matchStr) else epicEnd));
          attendingPhysician = trim (substring line attendingStart dateIdx);
          afterDate = substring_from line (dateIdx + int (length dischargeDate));
          beforeDisposition =
            (if disposition \<noteq> ''Unknown''
             then substring afterDate 0 (lastIndexOf afterDate disposition)
             else afterDate);
          pcpAndInsurance = trim beforeDisposition;
          (pcp, ins) = splitPcpAndInsurance pcpAndInsurance;
          primaryCareProvider =
            (case pcp of
               None \<Rightarrow> None
             | Some p \<Rightarrow>
                 if p \<noteq> [] \<and> includes_str (toLowerCase p) ''missing'' then None else Some p)
      in (attendingPhysician, primaryCareProvider, ins))"

record ParsedDischarge =
  patientName :: string
  epicId :: string
  phoneNumber :: "string option"
  attendingPhysician :: string
  dischargeDate :: string
  primaryCareProvider :: "string option"
  insurance :: string
  disposition :: string
  confidence :: real
  rawText :: string

record ParseResult =
  hospitalName :: string
  reportDate :: string
  records :: "ParsedDischarge list"
  sourceText :: string

definition parseDischargeRow :: "string \<Rightarrow> ParsedDischarge" where
  "parseDischargeRow line =
     (let epicMatch = first_match epic_at 11 line;
          epicId' = (case epicMatch of Some m \<Rightarrow> m | None \<Rightarrow> []);
          c1 = (if epicId' = [] then 1 - 2 / 10 else (1 :: real));
          dateMatch = first_match date_at 10 line;
          dischargeDate' = (case dateMatch of Some m \<Rightarrow> m | None \<Rightarrow> []);
          c2 = (if dischargeDate' = [] then c1 - 2 / 10 else c1);
          (phoneNumber', phoneMatch) = extractPhone line epicId';
          found = extractDisposition line;
          disposition' = (case found of Some disp \<Rightarrow> disp | None \<Rightarrow> ''Unknown'');
          c3 = (if found = None then c2 - 1 / 10 else c2);
          name = extractName line epicId';
          patientName' = (if name = [] then ''Unknown'' else name);
          c4 = (if name = [] then c3 - 2 / 10 else c3);
          (attending, pcp, insurance') =
            (if dateMatch \<noteq> None \<and> epicId' \<noteq> []
             then extractMiddle line epicId' dischargeDate' phoneMatch disposition'
             else ([], None, []));
          attendingPhysician' = normalizeProviderName attending;
          primaryCareProvider' =
            (case pcp of
               None \<Rightarrow> None
             | Some p \<Rightarrow> if p \<noteq> [] then Some (normalizeProviderName p) else Some p);
          c5 = (if phoneNumber' = None \<or> phoneNumber' = Some [] then c4 - 1 / 10 else c4);
          c6 = (if primaryCareProvider' = None \<or> primaryCareProvider' = Some []
                then c5 - 1 / 10 else c5);
          c7 = (if insurance' = ''Unknown'' then c6 - 1 / 10 else c6)
      in \<lparr> patientName = patientName',
           epicId = epicId',
           phoneNumber = phoneNumber',
           attendingPhysician = attendingPhysician',
           dischargeDate = dischargeDate',
           primaryCareProvider = primaryCareProvider',
           insurance = (if insurance' = [] then ''Unknown'' else insurance'),
           disposition = disposition',
           confidence = max 0 (real_of_int (round (c7 * 100)) / 100),
           rawText = line \<rparr>)"

section \<open>The entry point\<close>

text \<open>
  The constant \<^verbatim>\<open>dataLines\<close>. The field \<^verbatim>\<open>rawText\<close> of the result is \<open>sourceText\<close> here:
  the record of a row has a field \<open>rawText\<close> already.
\<close>

definition data_lines :: "string \<Rightarrow> string list" where
  "data_lines text = filter (\<lambda>l. find_first epic_at l \<noteq> None) (normalized_lines text)"

definition parseDischargeText :: "string \<Rightarrow> ParseResult" where
  "parseDischargeText text =
     (let lines = normalized_lines text;
          (hospitalName', reportDate') = extractHeader lines;
          dataLines = filter (\<lambda>l. find_first epic_at l \<noteq> None) lines
      in \<lparr> hospitalName = hospitalName',
           reportDate = reportDate',
           records = map parseDischargeRow dataLines,
           sourceText = text \<rparr>)"

section \<open>Declarative counterparts\<close>

text \<open>
  The record-identifier pattern in the words of the specification: two uppercase letters
  immediately followed by nine digits, found anywhere in a line.
\<close>

definition spec_identifier_at :: "string \<Rightarrow> bool" where
  "spec_identifier_at t \<longleftrightarrow>
     2 \<le> length t \<and> list_all is_upper (take 2 t) \<and> digits_at 9 (drop 2 t)"

definition spec_data_row :: "string \<Rightarrow> bool" where
  "spec_data_row l \<longleftrightarrow> find_first spec_identifier_at l \<noteq> None"

text \<open>A line in which the letters EP are followed by nine digits.\<close>

definition has_EP_identifier :: "string \<Rightarrow> bool" where
  "has_EP_identifier l \<longleftrightarrow>
     (\<exists>a ds b. l = a @ ''EP'' @ ds @ b \<and> length ds = 9 \<and> list_all is_digit ds)"

text \<open>A text occurs in another.\<close>

definition occurs :: "string \<Rightarrow> string \<Rightarrow> bool" where
  "occurs p t \<longleftrightarrow> (\<exists>a b. t = a @ p @ b)"

text \<open>
  A credential token of the splitter in any mix of cases, and its occurrence as a whole
  word: at the start of the text or after a character outside \<^verbatim>\<open>[A-Za-z0-9_]\<close>, and at
  the end of the text or before such a character.
\<close>

definition credential_token :: "string \<Rightarrow> bool" where
  "credential_token w \<longleftrightarrow> toUpperCase w \<in> set [''MD'', ''DO'', ''PA'', ''NP'', ''RN'']"

definition whole_word_credential :: "string \<Rightarrow> bool" where
  "whole_word_credential t \<longleftrightarrow>
     (\<exists>a w b. t = a @ w @ b \<and> credential_token w \<and>
        (a = [] \<or> \<not> is_word (last a)) \<and> (b = [] \<or> \<not> is_word (hd b)))"

text \<open>
  The shapes \<^verbatim>\<open>NN-NN-NNNN\<close> of a date and \<^verbatim>\<open>NNN-NNN-NNNN\<close> of a formatted phone
  number, and the raw phone number \<^verbatim>\<open>DDDDDDDDDD\<close> written as \<^verbatim>\<open>DDD-DDD-DDDD\<close>.
\<close>

definition date_shape :: "string \<Rightarrow> bool" where
  "date_shape d \<longleftrightarrow>
     (\<exists>a b c. d = a @ ''-'' @ b @ ''-'' @ c \<and> length a = 2 \<and> length b = 2 \<and> length c = 4 \<and>
        list_all is_digit a \<and> list_all is_digit b \<and> list_all is_digit c)"

definition phone_shape :: "string \<Rightarrow> bool" where
  "phone_shape p \<longleftrightarrow>
     (\<exists>a b c. p = a @ ''-'' @ b @ ''-'' @ c \<and> length a = 3 \<and> length b = 3 \<and> length c = 4 \<and>
        list_all is_digit a \<and> list_all is_digit b \<and> list_all is_digit c)"

definition dashed :: "string \<Rightarrow> string" where
  "dashed d = take 3 d @ ''-'' @ take 3 (drop 3 d) @ ''-'' @ drop 6 d"

text \<open>
  What may follow the identifier. After optional white space the text has a phone number
  in the shape \<^verbatim>\<open>NNN-NNN-NNNN\<close>; or it has ten digits and then a character of a given
  kind; or it has the marker \<^verbatim>\<open>(missing)\<close> in any mix of cases.
\<close>

definition phone_follows :: "string \<Rightarrow> string \<Rightarrow> bool" where
  "phone_follows a p \<longleftrightarrow>
     (\<exists>ws rest. a = ws @ p @ rest \<and> list_all is_space ws \<and> phone_shape p)"

definition digits_follow :: "(char \<Rightarrow> bool) \<Rightarrow> string \<Rightarrow> string \<Rightarrow> bool" where
  "digits_follow next_ok a d \<longleftrightarrow>
     (\<exists>ws c rest. a = ws @ d @ c # rest \<and> list_all is_space ws \<and>
        length d = 10 \<and> list_all is_digit d \<and> next_ok c)"

definition marker_follows :: "string \<Rightarrow> bool" where
  "marker_follows a \<longleftrightarrow>
     (\<exists>ws m rest. a = ws @ m @ rest \<and> list_all is_space ws \<and> toUpperCase m = ''(MISSING)'')"






text \<open>
  The credentials of the name pattern, the first word of a text, and a trimmed name in the
  wrong order: a surname without a comma, the comma, white space, a credential in any mix
  of cases, white space, and given names that have no line terminator.
\<close>

definition NAME_CREDENTIALS :: "string list" where
  "NAME_CREDENTIALS = [''MD'', ''DO'', ''PA'', ''NP'', ''PA-C'', ''RN'', ''BSN'']"

definition first_word :: "string \<Rightarrow> string" where
  "first_word g = takeWhile (\<lambda>c. \<not> is_space c) g"

definition wrong_order :: "string \<Rightarrow> string \<Rightarrow> string \<Rightarrow> string \<Rightarrow> bool" where
  "wrong_order t g1 g2 g3 \<longleftrightarrow>
     (\<exists>ws ws'. t = g1 @ '','' @ ws @ g2 @ ws' @ g3 \<and>
        g1 \<noteq> [] \<and> CHR '','' \<notin> set g1 \<and>
        ws \<noteq> [] \<and> list_all is_space ws \<and>
        toUpperCase g2 \<in> set NAME_CREDENTIALS \<and>
        ws' \<noteq> [] \<and> list_all is_space ws' \<and>
        g3 \<noteq> [] \<and> \<not> is_space (hd g3) \<and> (\<forall>c\<in>set g3. \<not> is_line_terminator c))"
section \<open>Scans and projections\<close>

lemma find_first_Some:
  "find_first P s = Some i \<Longrightarrow> i \<le> length s \<and> P (drop i s) \<and> (\<forall>j<i. \<not> P (drop j s))"
proof (induction s arbitrary: i)
  case Nil
  then show ?case by (simp split: if_splits)
next
  case (Cons c cs)
  show ?case
  proof (cases "P (c # cs)")
    case True
    with Cons.prems show ?thesis by simp
  next
    case False
    with Cons.prems obtain k where k: "find_first P cs = Some k" "i = Suc k"
      by auto
    from Cons.IH [OF k(1)] have ih: "k \<le> length cs" "P (drop k cs)" "\<forall>j<k. \<not> P (drop j cs)"
      by simp_all
    have "\<not> P (drop j (c # cs))" if "j < i" for j
    proof (cases j)
      case 0
      with False show ?thesis by simp
    next
      case (Suc m)
      with that k(2) ih(3) show ?thesis by simp
    qed
    with ih k(2) show ?thesis by simp
  qed
qed

lemma find_first_None:
  "find_first P s = None \<Longrightarrow> j \<le> length s \<Longrightarrow> \<not> P (drop j s)"
proof (induction s arbitrary: j)
  case Nil
  then show ?case by (simp split: if_splits)
next
  case (Cons c cs)
  then show ?case by (cases j) (auto split: if_splits)
qed

lemma find_first_exists:
  "P (drop j s) \<Longrightarrow> j \<le> length s \<Longrightarrow> \<exists>i\<le>j. find_first P s = Some i"
  by (cases "find_first P s") (auto dest: find_first_None find_first_Some intro: leI)

lemma find_first_eqI:
  assumes "P (drop i s)" "i \<le> length s" "\<And>j. j < i \<Longrightarrow> \<not> P (drop j s)"
  shows "find_first P s = Some i"
proof -
  from find_first_exists [of P i s] assms(1,2) obtain k where k: "k \<le> i" "find_first P s = Some k"
    by blast
  from find_first_Some [OF k(2)] have "P (drop k s)" by simp
  with assms(3) k(1) have "k = i" by (cases "k < i") auto
  with k(2) show ?thesis by simp
qed

lemma epicId_row:
  "epicId (parseDischargeRow l) = (case first_match epic_at 11 l of Some m \<Rightarrow> m | None \<Rightarrow> [])"
  by (simp only: parseDischargeRow_def Let_def case_prod_beta ParsedDischarge.select_convs)

lemma rawText_row: "rawText (parseDischargeRow l) = l"
  by (simp only: parseDischargeRow_def Let_def case_prod_beta ParsedDischarge.select_convs)

lemma dischargeDate_row:
  "dischargeDate (parseDischargeRow l) = (case first_match date_at 10 l of Some m \<Rightarrow> m | None \<Rightarrow> [])"
  by (simp only: parseDischargeRow_def Let_def case_prod_beta ParsedDischarge.select_convs)

lemma phoneNumber_row:
  "phoneNumber (parseDischargeRow l) = fst (extractPhone l (epicId (parseDischargeRow l)))"
  by (simp only: parseDischargeRow_def Let_def case_prod_beta ParsedDischarge.select_convs)

lemma records_parse:
  "records (parseDischargeText s) = map parseDischargeRow (data_lines s)"
  by (simp only: parseDischargeText_def data_lines_def Let_def case_prod_beta ParseResult.select_convs)


lemma epic_at_shape:
  assumes "epic_at t"
  shows "\<exists>ds. take 11 t = ''EP'' @ ds \<and> length ds = 9 \<and> list_all is_digit ds"
proof -
  from assms obtain zs where t: "t = ''EP'' @ zs"
    by (auto simp: epic_at_def startsWith_def prefix_def)
  with assms have d: "9 \<le> length zs" "list_all is_digit (take 9 zs)"
    by (simp_all add: epic_at_def digits_at_def)
  have "take 11 t = ''EP'' @ take 9 zs" by (simp add: t)
  with d show ?thesis by auto
qed

lemma epic_at_iff:
  "epic_at t \<longleftrightarrow> (\<exists>ds b. t = ''EP'' @ ds @ b \<and> length ds = 9 \<and> list_all is_digit ds)"
proof
  assume h: "epic_at t"
  then obtain zs where t: "t = ''EP'' @ zs"
    by (auto simp: epic_at_def startsWith_def prefix_def)
  with h have d: "9 \<le> length zs" "list_all is_digit (take 9 zs)"
    by (simp_all add: epic_at_def digits_at_def)
  have "t = ''EP'' @ take 9 zs @ drop 9 zs" by (simp add: t)
  with d show "\<exists>ds b. t = ''EP'' @ ds @ b \<and> length ds = 9 \<and> list_all is_digit ds"
    by (intro exI [of _ "take 9 zs"] exI [of _ "drop 9 zs"]) simp
next
  assume "\<exists>ds b. t = ''EP'' @ ds @ b \<and> length ds = 9 \<and> list_all is_digit ds"
  then show "epic_at t"
    by (auto simp: epic_at_def startsWith_def digits_at_def)
qed

lemma data_line_epicId:
  assumes "find_first epic_at l \<noteq> None"
  shows "\<exists>ds. epicId (parseDischargeRow l) = ''EP'' @ ds \<and> length ds = 9 \<and> list_all is_digit ds"
proof -
  from assms obtain i where i: "find_first epic_at l = Some i" by auto
  from find_first_Some [OF i] have "epic_at (drop i l)" by simp
  from epic_at_shape [OF this] show ?thesis
    by (simp add: epicId_row first_match_def i)
qed

lemma epic_found_iff: "find_first epic_at l \<noteq> None \<longleftrightarrow> has_EP_identifier l"
proof
  assume "find_first epic_at l \<noteq> None"
  then obtain i where i: "find_first epic_at l = Some i" by auto
  from find_first_Some [OF i] have "epic_at (drop i l)" by simp
  then obtain ds b where d: "drop i l = ''EP'' @ ds @ b" "length ds = 9" "list_all is_digit ds"
    by (auto simp: epic_at_iff)
  have "l = take i l @ drop i l" by simp
  with d show "has_EP_identifier l"
    unfolding has_EP_identifier_def by metis
next
  assume "has_EP_identifier l"
  then obtain a ds b where d: "l = a @ ''EP'' @ ds @ b" "length ds = 9" "list_all is_digit ds"
    unfolding has_EP_identifier_def by blast
  have "drop (length a) l = ''EP'' @ ds @ b" by (simp add: d(1))
  with d(2,3) have "epic_at (drop (length a) l)" by (auto simp: epic_at_iff)
  moreover have "length a \<le> length l" by (simp add: d(1))
  ultimately show "find_first epic_at l \<noteq> None"
    using find_first_exists [of epic_at "length a" l] by auto
qed

lemma data_lines_spec: "data_lines s = filter has_EP_identifier (normalized_lines s)"
  by (simp only: data_lines_def epic_found_iff)

section \<open>Lines of white space\<close>

lemma split_lines_set: "l \<in> set (split_lines s) \<Longrightarrow> set l \<subseteq> set s"
proof (induction s arbitrary: l)
  case Nil
  then show ?case by simp
next
  case (Cons c cs)
  show ?case
  proof (cases "c = CHR 0x0A")
    case True
    with Cons.prems have "l = [] \<or> l \<in> set (split_lines cs)" by simp
    with Cons.IH show ?thesis by auto
  next
    case False
    show ?thesis
    proof (cases "split_lines cs")
      case Nil
      with False Cons.prems show ?thesis by simp
    next
      case (Cons m ms)
      with False Cons.prems have "l = c # m \<or> l \<in> set ms" by simp
      moreover have "set m \<subseteq> set cs" using Cons.IH [of m] Cons by simp
      moreover have "l \<in> set ms \<Longrightarrow> set l \<subseteq> set cs" using Cons.IH [of l] Cons by simp
      ultimately show ?thesis by auto
    qed
  qed
qed

lemma strip_pipes_spaces: "list_all is_space l \<Longrightarrow> strip_pipes l = l"
proof (induction l)
  case Nil
  then show ?case by simp
next
  case (Cons c cs)
  then have d: "dropWhile is_space (c # cs) = []" by (simp add: list_all_iff)
  from Cons have "strip_pipes cs = cs" by simp
  then show ?case by (simp only: strip_pipes.simps d list.case)
qed

lemma collapse_spaces_set: "set (collapse_spaces l) \<subseteq> insert (CHR '' '') (set l)"
proof (induction l rule: collapse_spaces.induct)
  case (3 c d cs)
  have "set (dropWhile is_space cs) \<subseteq> set cs" by (rule set_dropWhileD [THEN subsetI])
  with 3 show ?case by auto
qed simp_all

lemma is_space_blank: "is_space (CHR '' '')"
  by (simp add: is_space_def)

lemma trim_spaces: "list_all is_space l \<Longrightarrow> trim l = []"
proof -
  assume "list_all is_space l"
  then have "dropWhile is_space l = []" by (simp add: list_all_iff)
  then show ?thesis by (simp only: trim_def rev.simps dropWhile.simps)
qed

lemma normalize_line_spaces:
  assumes "list_all is_space l"
  shows "normalize_line l = []"
proof -
  have "set (collapse_spaces l) \<subseteq> insert (CHR '' '') (set l)" by (rule collapse_spaces_set)
  with assms have "list_all is_space (collapse_spaces l)"
    using is_space_blank by (auto simp: list_all_iff)
  then show ?thesis using assms by (simp add: normalize_line_def strip_pipes_spaces trim_spaces)
qed

lemma normalized_lines_spaces:
  assumes "list_all is_space s"
  shows "normalized_lines s = []"
proof -
  have "normalize_line l = []" if "l \<in> set (split_lines s)" for l
  proof -
    from split_lines_set [OF that] assms have "list_all is_space l" by (auto simp: list_all_iff)
    then show ?thesis by (rule normalize_line_spaces)
  qed
  then show ?thesis by (simp add: normalized_lines_def filter_empty_conv)
qed

lemma parse_no_lines:
  assumes "normalized_lines s = []"
  shows "parseDischargeText s =
    \<lparr> hospitalName = ''Unknown Hospital'', reportDate = [], records = [], sourceText = s \<rparr>"
  by (simp add: parseDischargeText_def assms extractHeader_def)

lemma sourceText_parse: "sourceText (parseDischargeText s) = s"
  by (simp only: parseDischargeText_def Let_def case_prod_beta ParseResult.select_convs)

section \<open>Trimming\<close>

lemma trim_id:
  assumes "s \<noteq> []" "\<not> is_space (hd s)" "\<not> is_space (last s)"
  shows "trim s = s"
proof -
  from assms(1,2) have a: "dropWhile is_space s = s" by (cases s) simp_all
  from assms(1,3) have "\<not> is_space (hd (rev s))" by (simp add: hd_rev)
  with assms(1) have "dropWhile is_space (rev s) = rev s" by (cases "rev s") simp_all
  with a show ?thesis by (simp add: trim_def)
qed

lemma trim_ends:
  assumes "trim s \<noteq> []"
  shows "\<not> is_space (hd (trim s))" and "\<not> is_space (last (trim s))"
proof -
  let ?a = "dropWhile is_space s"
  let ?b = "dropWhile is_space (rev ?a)"
  from assms have b: "?b \<noteq> []" by (simp add: trim_def)
  then have hb: "\<not> is_space (hd ?b)" by (rule hd_dropWhile)
  from b have "last (trim s) = hd ?b" by (simp add: trim_def last_rev)
  with hb show "\<not> is_space (last (trim s))" by simp
  have a: "?a \<noteq> []"
  proof
    assume "?a = []"
    then have "?b = []" by (simp only: rev.simps dropWhile.simps)
    with b show False by simp
  qed
  then have ha: "\<not> is_space (hd ?a)" by (rule hd_dropWhile)
  have "rev ?a = takeWhile is_space (rev ?a) @ ?b" by simp
  then have "?a = rev ?b @ rev (takeWhile is_space (rev ?a))"
    by (metis rev_append rev_rev_ident)
  with b have "hd ?a = hd (rev ?b)" by (metis hd_append2 rev_is_Nil_conv)
  with ha show "\<not> is_space (hd (trim s))" by (simp add: trim_def)
qed

lemma trim_Nil: "trim [] = []"
  by (simp add: trim_def)

lemma trim_idem: "trim (trim s) = trim s"
proof (cases "trim s = []")
  case True
  then show ?thesis by (simp only: trim_Nil)
next
  case False
  from trim_ends [OF False] False show ?thesis by (intro trim_id)
qed

section \<open>Occurrences\<close>

lemma startsWith_drop_iff:
  assumes "i \<le> length t"
  shows "startsWith (drop i t) p \<longleftrightarrow> (\<exists>b. t = take i t @ p @ b)"
proof
  assume "startsWith (drop i t) p"
  then obtain b where "drop i t = p @ b" by (auto simp: startsWith_def prefix_def)
  then have "t = take i t @ p @ b" by (metis append_take_drop_id)
  then show "\<exists>b. t = take i t @ p @ b" ..
next
  assume "\<exists>b. t = take i t @ p @ b"
  then obtain b where b: "t = take i t @ p @ b" ..
  have "drop i t = drop i (take i t @ p @ b)" using b by simp
  also have "\<dots> = p @ b" using assms by simp
  finally show "startsWith (drop i t) p" by (simp add: startsWith_def)
qed

lemma startsWith_at_append: "startsWith (drop (length a) (a @ p @ b)) p"
  by (simp add: startsWith_def)

lemma indexOf_negative: "indexOf t p < 0 \<longleftrightarrow> \<not> occurs p t"
proof
  assume "indexOf t p < 0"
  then have n: "find_first (\<lambda>u. startsWith u p) t = None"
    by (simp add: indexOf_def split: option.splits)
  show "\<not> occurs p t"
  proof
    assume "occurs p t"
    then obtain a b where t: "t = a @ p @ b" unfolding occurs_def by blast
    have "length a \<le> length t" by (simp add: t)
    from find_first_None [OF n this] show False
      unfolding t using startsWith_at_append by blast
  qed
next
  assume o: "\<not> occurs p t"
  have "find_first (\<lambda>u. startsWith u p) t = None"
  proof (cases "find_first (\<lambda>u. startsWith u p) t")
    case (Some i)
    from find_first_Some [OF Some] have "i \<le> length t" "startsWith (drop i t) p" by simp_all
    then have "\<exists>b. t = take i t @ p @ b" by (simp add: startsWith_drop_iff)
    with o show ?thesis unfolding occurs_def by blast
  qed simp
  then show "indexOf t p < 0" by (simp add: indexOf_def)
qed

lemma indexOf_leftmost:
  assumes "occurs p t"
  shows "\<exists>a b. t = a @ p @ b \<and> indexOf t p = int (length a) \<and>
           (\<forall>a' b'. t = a' @ p @ b' \<longrightarrow> length a \<le> length a')"
proof -
  from assms have "\<not> indexOf t p < 0" by (simp add: indexOf_negative)
  then obtain i where i: "find_first (\<lambda>u. startsWith u p) t = Some i"
    by (auto simp: indexOf_def split: option.splits)
  from find_first_Some [OF i] have
    f: "i \<le> length t" "startsWith (drop i t) p" "\<forall>j<i. \<not> startsWith (drop j t) p"
    by simp_all
  from f(1,2) obtain b where b: "t = take i t @ p @ b" by (auto simp: startsWith_drop_iff)
  have "length (take i t) \<le> length a'" if "t = a' @ p @ b'" for a' b'
  proof (rule ccontr)
    assume "\<not> length (take i t) \<le> length a'"
    with f(1) have "length a' < i" by simp
    with f(3) have "\<not> startsWith (drop (length a') t) p" by simp
    with that startsWith_at_append show False by metis
  qed
  moreover have "indexOf t p = int (length (take i t))" using i f(1) by (simp add: indexOf_def)
  ultimately show ?thesis using b by blast
qed

lemma substring_take: "substring t 0 (int n) = take n t"
  by (simp add: substring_def Let_def min_def max_def)

lemma sorted_patterns_value:
  "sorted_patterns =
     [''UnitedHealthcare'', ''Humana Health'', ''Aetna Health'', ''Blue Cross'',
      ''Medicare'', ''Medicaid'', ''Self Pay'', ''Self-Pay'', ''Tricare'',
      ''Humana'', ''United'', ''Kaiser'', ''Aetna'', ''Cigna'', ''BCBS'']"
  by code_simp

lemma set_sorted_patterns: "set sorted_patterns = set INSURANCE_PATTERNS"
  by (simp add: sorted_patterns_def)

lemma first_pattern_None:
  "first_pattern ps t = None \<longleftrightarrow> (\<forall>p\<in>set ps. \<not> occurs p t)"
proof (induction ps)
  case Nil
  then show ?case by simp
next
  case (Cons p ps)
  show ?case
  proof (cases "occurs p t")
    case True
    then have "\<not> indexOf t p < 0" by (simp add: indexOf_negative)
    then show ?thesis using True by (simp add: Let_def)
  next
    case False
    then have "indexOf t p < 0" by (simp add: indexOf_negative)
    then show ?thesis using False Cons.IH by (simp add: Let_def)
  qed
qed

lemma first_pattern_hit:
  assumes "\<forall>q\<in>set ps. \<not> occurs q t" "occurs p t"
  shows "first_pattern (ps @ p # qs) t =
           Some (if trim (substring t 0 (indexOf t p)) = [] then None
                 else Some (trim (substring t 0 (indexOf t p))), p)"
  using assms(1)
proof (induction ps)
  case Nil
  from assms(2) have "\<not> indexOf t p < 0" by (simp add: indexOf_negative)
  then show ?case by (simp add: Let_def)
next
  case (Cons q ps)
  then have "indexOf t q < 0" by (simp add: indexOf_negative)
  with Cons show ?case by (simp add: Let_def)
qed

lemma first_pattern_Some_mem:
  "first_pattern ps t = Some (pcp, ins) \<Longrightarrow> ins \<in> set ps"
  by (induction ps) (auto simp: Let_def split: if_splits)

section \<open>Credential tokens as whole words\<close>

lemma toUpperCase_length: "length (toUpperCase w) = length w"
  by (simp add: toUpperCase_def)

lemma credential_token_length: "credential_token w \<Longrightarrow> length w = 2"
proof -
  assume "credential_token w"
  then have "length (toUpperCase w) = 2" by (auto simp: credential_token_def)
  then show ?thesis by (simp add: toUpperCase_length)
qed

lemma splitter_tokens_upper:
  "tok \<in> set [''MD'', ''DO'', ''PA'', ''NP'', ''RN''] \<Longrightarrow> toUpperCase tok = tok \<and> length tok = 2"
  by (auto simp: toUpperCase_def toUpperChar_def)

lemma credential_start_iff:
  "list_ex (\<lambda>tok. startsWith_ci t tok) [''MD'', ''DO'', ''PA'', ''NP'', ''RN''] \<longleftrightarrow>
     2 \<le> length t \<and> credential_token (take 2 t)"
proof -
  have "startsWith_ci t tok \<longleftrightarrow> 2 \<le> length t \<and> toUpperCase (take 2 t) = tok"
    if "tok \<in> set [''MD'', ''DO'', ''PA'', ''NP'', ''RN'']" for tok
    using splitter_tokens_upper [OF that] by (simp add: startsWith_ci_def)
  then show ?thesis
    unfolding list_ex_iff credential_token_def by blast
qed

lemma credential_at_iff:
  "credential_at t \<longleftrightarrow>
     (\<exists>w b. t = w @ b \<and> credential_token w \<and> (b = [] \<or> \<not> is_word (hd b)))"
proof
  assume h: "credential_at t"
  then have l: "2 \<le> length t" and c: "credential_token (take 2 t)"
    unfolding credential_at_def credential_start_iff by simp_all
  from h have "drop 2 t = [] \<or> \<not> is_word (hd (drop 2 t))"
    by (cases "drop 2 t") (simp_all add: credential_at_def)
  moreover have "t = take 2 t @ drop 2 t" by simp
  ultimately show "\<exists>w b. t = w @ b \<and> credential_token w \<and> (b = [] \<or> \<not> is_word (hd b))"
    using c by blast
next
  assume "\<exists>w b. t = w @ b \<and> credential_token w \<and> (b = [] \<or> \<not> is_word (hd b))"
  then obtain w b where
    w: "t = w @ b" "credential_token w" "b = [] \<or> \<not> is_word (hd b)" by blast
  from credential_token_length [OF w(2)] have lw: "length w = 2" .
  with w(1) have t: "take 2 t = w" "drop 2 t = b" "2 \<le> length t" by simp_all
  from w(3) have "(case b of [] \<Rightarrow> True | d # _ \<Rightarrow> \<not> is_word d)" by (cases b) simp_all
  with t w(2) show "credential_at t"
    unfolding credential_at_def credential_start_iff by simp
qed

lemma credential_token_Nil: "\<not> credential_token []"
  by (simp add: credential_token_def toUpperCase_def)

lemma credential_scan_iff:
  "credential_scan pw t \<longleftrightarrow>
     (\<exists>a w b. t = a @ w @ b \<and> credential_token w \<and>
        (if a = [] then \<not> pw else \<not> is_word (last a)) \<and> (b = [] \<or> \<not> is_word (hd b)))"
proof (induction t arbitrary: pw)
  case Nil
  show ?case using credential_token_Nil by simp
next
  case (Cons c cs)
  let ?R = "\<lambda>pw t a w b. t = a @ w @ b \<and> credential_token w \<and>
        (if a = [] then \<not> pw else \<not> is_word (last a)) \<and> (b = [] \<or> \<not> is_word (hd b))"
  show ?case
  proof
    assume s: "credential_scan pw (c # cs)"
    show "\<exists>a w b. ?R pw (c # cs) a w b"
    proof (cases "\<not> pw \<and> credential_at (c # cs)")
      case True
      then obtain w b where "c # cs = w @ b" "credential_token w" "b = [] \<or> \<not> is_word (hd b)"
        by (auto simp: credential_at_iff)
      with True have "?R pw (c # cs) [] w b" by simp
      then show ?thesis by blast
    next
      case False
      with s have "credential_scan (is_word c) cs" by (simp split: if_splits)
      with Cons.IH obtain a w b where r: "?R (is_word c) cs a w b" by blast
      then have "?R pw (c # cs) (c # a) w b" by (cases "a = []") simp_all
      then show ?thesis by blast
    qed
  next
    assume "\<exists>a w b. ?R pw (c # cs) a w b"
    then obtain a w b where r: "?R pw (c # cs) a w b" by blast
    show "credential_scan pw (c # cs)"
    proof (cases a)
      case Nil
      with r have "\<not> pw" and "credential_at (c # cs)"
        by (auto simp: credential_at_iff)
      then show ?thesis by simp
    next
      case (Cons d a')
      with r have "?R (is_word c) cs a' w b" by (cases "a' = []") auto
      with Cons.IH have "credential_scan (is_word c) cs" by blast
      then show ?thesis by simp
    qed
  qed
qed

lemma has_credential_iff: "has_credential t \<longleftrightarrow> whole_word_credential t"
proof -
  have "(if a = [] then \<not> False else \<not> is_word (last a)) \<longleftrightarrow> (a = [] \<or> \<not> is_word (last a))"
    for a :: string by simp
  then show ?thesis
    unfolding has_credential_def whole_word_credential_def credential_scan_iff by simp
qed

section \<open>The splitter by cases\<close>

lemma patterns_nonempty: "p \<in> set INSURANCE_PATTERNS \<Longrightarrow> p \<noteq> []"
  by (auto simp: INSURANCE_PATTERNS_def)

lemma occurs_nonempty: "occurs p t \<Longrightarrow> p \<noteq> [] \<Longrightarrow> t \<noteq> []"
  by (auto simp: occurs_def)

lemma sorted_patterns_descending:
  "sorted_wrt (\<lambda>p q. length q \<le> length p) sorted_patterns"
  by (simp add: sorted_patterns_value)

lemma split_no_pattern:
  assumes "\<forall>p\<in>set INSURANCE_PATTERNS. \<not> occurs p t"
  shows "splitPcpAndInsurance t =
           (if whole_word_credential t then (Some (trim t), ''Unknown'')
            else (None, if trim t = [] then ''Unknown'' else trim t))"
proof -
  from assms have n: "first_pattern sorted_patterns t = None"
    by (simp add: first_pattern_None set_sorted_patterns)
  have e: "\<not> whole_word_credential []"
    using credential_token_Nil by (simp add: whole_word_credential_def)
  show ?thesis
  proof (cases "t = []")
    case True
    with e show ?thesis by (simp add: splitPcpAndInsurance_def trim_Nil)
  next
    case False
    with n show ?thesis by (simp add: splitPcpAndInsurance_def has_credential_iff)
  qed
qed

lemma split_pattern:
  assumes "sorted_patterns = ps @ p # qs" "\<forall>q\<in>set ps. \<not> occurs q t" "occurs p t"
  shows "\<exists>a b. t = a @ p @ b \<and> (\<forall>a' b'. t = a' @ p @ b' \<longrightarrow> length a \<le> length a') \<and>
           splitPcpAndInsurance t = (if trim a = [] then None else Some (trim a), p)"
proof -
  have "p \<in> set sorted_patterns" unfolding assms(1) by simp
  then have "p \<noteq> []" by (simp add: set_sorted_patterns patterns_nonempty)
  with assms(3) have ne: "t \<noteq> []" by (rule occurs_nonempty)
  from indexOf_leftmost [OF assms(3)] obtain a b where
    a: "t = a @ p @ b" "indexOf t p = int (length a)"
       "\<forall>a' b'. t = a' @ p @ b' \<longrightarrow> length a \<le> length a'"
    by blast
  have s: "substring t 0 (indexOf t p) = a"
    unfolding a(2) substring_take using a(1) by simp
  from first_pattern_hit [OF assms(2,3), of qs] have
    "first_pattern sorted_patterns t = Some (if trim a = [] then None else Some (trim a), p)"
    unfolding s assms(1) .
  with ne have "splitPcpAndInsurance t = (if trim a = [] then None else Some (trim a), p)"
    by (simp add: splitPcpAndInsurance_def)
  with a(1,3) show ?thesis by blast
qed

lemma not_occurs_all:
  "(\<forall>p\<in>set ps. indexOf t p < 0) \<Longrightarrow> (\<forall>p\<in>set ps. \<not> occurs p t)"
  by (simp add: indexOf_negative)

section \<open>Shapes of the anchors\<close>

lemma digits_at_iff:
  "digits_at n t \<longleftrightarrow> (\<exists>a b. t = a @ b \<and> length a = n \<and> list_all is_digit a)"
proof
  assume "digits_at n t"
  then have "t = take n t @ drop n t \<and> length (take n t) = n \<and> list_all is_digit (take n t)"
    by (simp add: digits_at_def)
  then show "\<exists>a b. t = a @ b \<and> length a = n \<and> list_all is_digit a" by blast
next
  assume "\<exists>a b. t = a @ b \<and> length a = n \<and> list_all is_digit a"
  then show "digits_at n t" by (auto simp: digits_at_def)
qed

lemma startsWith_dash: "startsWith t ''-'' \<longleftrightarrow> (\<exists>b. t = CHR ''-'' # b)"
  by (auto simp: startsWith_def prefix_def)

lemma three_groups_iff:
  "digits_at m t \<and> startsWith (drop m t) ''-'' \<and> digits_at n (drop (Suc m) t) \<and>
     startsWith (drop (Suc (m + n)) t) ''-'' \<and> digits_at k (drop (Suc (Suc (m + n))) t) \<longleftrightarrow>
   (\<exists>a b c r. t = (a @ ''-'' @ b @ ''-'' @ c) @ r \<and> length a = m \<and> length b = n \<and> length c = k \<and>
      list_all is_digit a \<and> list_all is_digit b \<and> list_all is_digit c)"
  (is "?L \<longleftrightarrow> ?R")
proof
  assume l: ?L
  then obtain a t1 where a: "t = a @ t1" "length a = m" "list_all is_digit a"
    by (auto simp: digits_at_iff)
  with l obtain t2 where t2: "t1 = CHR ''-'' # t2" by (auto simp: startsWith_dash)
  with l a have "digits_at n t2" by simp
  then obtain b t3 where b: "t2 = b @ t3" "length b = n" "list_all is_digit b"
    by (auto simp: digits_at_iff)
  with l a t2 obtain t4 where t4: "t3 = CHR ''-'' # t4" by (auto simp: startsWith_dash)
  with l a t2 b have "digits_at k t4" by simp
  then obtain c r where c: "t4 = c @ r" "length c = k" "list_all is_digit c"
    by (auto simp: digits_at_iff)
  have "t = (a @ ''-'' @ b @ ''-'' @ c) @ r" by (simp add: a(1) t2 b(1) t4 c(1))
  with a b c show ?R by blast
next
  assume ?R
  then obtain a b c r where
    t: "t = (a @ ''-'' @ b @ ''-'' @ c) @ r" "length a = m" "length b = n" "length c = k"
      "list_all is_digit a" "list_all is_digit b" "list_all is_digit c"
    by blast
  have 1: "digits_at m t" unfolding digits_at_iff using t by auto
  have d1: "drop m t = CHR ''-'' # b @ ''-'' @ c @ r" using t by simp
  have d2: "drop (Suc m) t = b @ ''-'' @ c @ r" using t by simp
  have d3: "drop (Suc (m + n)) t = CHR ''-'' # c @ r" using t by simp
  have d4: "drop (Suc (Suc (m + n))) t = c @ r" using t by simp
  have 2: "digits_at n (drop (Suc m) t)" unfolding d2 digits_at_iff using t by auto
  have 3: "digits_at k (drop (Suc (Suc (m + n))) t)" unfolding d4 digits_at_iff using t by auto
  from 1 2 3 show ?L by (simp add: d1 d3 startsWith_dash)
qed

lemma date_at_iff: "date_at t \<longleftrightarrow> (\<exists>d r. t = d @ r \<and> date_shape d)"
proof -
  have "date_at t \<longleftrightarrow>
    (\<exists>a b c r. t = (a @ ''-'' @ b @ ''-'' @ c) @ r \<and> length a = 2 \<and> length b = 2 \<and> length c = 4 \<and>
      list_all is_digit a \<and> list_all is_digit b \<and> list_all is_digit c)"
    using three_groups_iff [of 2 t 2 4] by (simp add: date_at_def numeral_eq_Suc)
  also have "\<dots> \<longleftrightarrow> (\<exists>d r. t = d @ r \<and> date_shape d)"
    unfolding date_shape_def by blast
  finally show ?thesis .
qed

lemma phone_at_iff: "phone_at t \<longleftrightarrow> (\<exists>p r. t = p @ r \<and> phone_shape p)"
proof -
  have "phone_at t \<longleftrightarrow>
    (\<exists>a b c r. t = (a @ ''-'' @ b @ ''-'' @ c) @ r \<and> length a = 3 \<and> length b = 3 \<and> length c = 4 \<and>
      list_all is_digit a \<and> list_all is_digit b \<and> list_all is_digit c)"
    using three_groups_iff [of 3 t 3 4] by (simp add: phone_at_def numeral_eq_Suc)
  also have "\<dots> \<longleftrightarrow> (\<exists>p r. t = p @ r \<and> phone_shape p)"
    unfolding phone_shape_def by blast
  finally show ?thesis .
qed

lemma date_shape_length: "date_shape d \<Longrightarrow> length d = 10"
  by (auto simp: date_shape_def)

lemma phone_shape_length: "phone_shape p \<Longrightarrow> length p = 12"
  by (auto simp: phone_shape_def)

section \<open>Positions of the anchors\<close>

lemma indexOf_first_match:
  assumes f: "find_first P l = Some i"
    and len: "\<And>t. P t \<Longrightarrow> n \<le> length t"
    and pre: "\<And>t u. P t \<Longrightarrow> prefix (take n t) u \<Longrightarrow> P u"
  shows "indexOf l (take n (drop i l)) = int i"
proof -
  let ?m = "take n (drop i l)"
  from find_first_Some [OF f] have
    i: "i \<le> length l" "P (drop i l)" "\<forall>k<i. \<not> P (drop k l)" by simp_all
  have "find_first (\<lambda>t. startsWith t ?m) l = Some i"
  proof (rule find_first_eqI)
    show "startsWith (drop i l) ?m" by (simp add: startsWith_def take_is_prefix)
    show "i \<le> length l" by (rule i(1))
    fix k assume k: "k < i"
    show "\<not> startsWith (drop k l) ?m"
    proof
      assume "startsWith (drop k l) ?m"
      then have "prefix ?m (drop k l)" by (simp add: startsWith_def)
      with pre [OF i(2)] have "P (drop k l)" by blast
      with i(3) k show False by blast
    qed
  qed
  then show ?thesis by (simp add: indexOf_def)
qed

lemma epic_at_prefix: "epic_at t \<Longrightarrow> prefix (take 11 t) u \<Longrightarrow> epic_at u"
proof -
  assume "epic_at t" and p: "prefix (take 11 t) u"
  then obtain ds b where t: "t = ''EP'' @ ds @ b" "length ds = 9" "list_all is_digit ds"
    by (auto simp: epic_at_iff)
  then have "take 11 t = ''EP'' @ ds" by simp
  with p obtain r where "u = ''EP'' @ ds @ r" by (auto simp: prefix_def)
  with t(2,3) show "epic_at u" by (auto simp: epic_at_iff)
qed

lemma epic_at_length: "epic_at t \<Longrightarrow> 11 \<le> length t"
  by (auto simp: epic_at_iff)

lemma date_at_prefix: "date_at t \<Longrightarrow> prefix (take 10 t) u \<Longrightarrow> date_at u"
proof -
  assume "date_at t" and p: "prefix (take 10 t) u"
  then obtain d r where t: "t = d @ r" "date_shape d" by (auto simp: date_at_iff)
  from date_shape_length [OF t(2)] t(1) have "take 10 t = d" by simp
  with p obtain r' where "u = d @ r'" by (auto simp: prefix_def)
  with t(2) show "date_at u" by (auto simp: date_at_iff)
qed

lemma date_at_length: "date_at t \<Longrightarrow> 10 \<le> length t"
  by (auto simp: date_at_iff dest: date_shape_length)

lemma indexOf_epic:
  "find_first epic_at l = Some i \<Longrightarrow> indexOf l (take 11 (drop i l)) = int i"
  by (erule indexOf_first_match) (erule epic_at_length, erule epic_at_prefix, assumption)

lemma indexOf_date:
  "find_first date_at l = Some j \<Longrightarrow> indexOf l (take 10 (drop j l)) = int j"
  by (erule indexOf_first_match) (erule date_at_length, erule date_at_prefix, assumption)

lemma substring_from_drop: "substring_from s (int n) = drop n s"
  by (simp add: substring_from_def substring_def Let_def min_def max_def)

lemma trim_decomp: "\<exists>u v. s = u @ trim s @ v \<and> list_all is_space u \<and> list_all is_space v"
proof -
  let ?a = "dropWhile is_space s"
  let ?u = "takeWhile is_space s"
  let ?v = "rev (takeWhile is_space (rev ?a))"
  have 1: "s = ?u @ ?a" by simp
  have "rev ?a = takeWhile is_space (rev ?a) @ dropWhile is_space (rev ?a)" by simp
  then have "rev (rev ?a) = rev (takeWhile is_space (rev ?a) @ dropWhile is_space (rev ?a))"
    by (rule arg_cong)
  then have 2: "?a = trim s @ ?v" by (simp only: rev_rev_ident rev_append trim_def)
  have 3: "list_all is_space ?u" by (simp add: list_all_iff) (meson set_takeWhileD)
  have 4: "list_all is_space ?v" by (simp add: list_all_iff) (meson set_takeWhileD)
  from 1 2 have "s = ?u @ trim s @ ?v" by simp
  with 3 4 show ?thesis by blast
qed

lemma row_epicId:
  "find_first epic_at l = Some i \<Longrightarrow> epicId (parseDischargeRow l) = take 11 (drop i l)"
  by (simp add: epicId_row first_match_def)

lemma row_epicId_nonempty:
  "find_first epic_at l = Some i \<Longrightarrow> take 11 (drop i l) \<noteq> []"
  by (auto dest!: find_first_Some epic_at_length)

section \<open>The phone number after the identifier\<close>

lemma digit_not_space: "is_digit c \<Longrightarrow> \<not> is_space c"
  by (auto simp: is_digit_def is_space_def)

lemma digit_upper: "is_digit c \<Longrightarrow> toUpperChar c = c"
  by (auto simp: is_digit_def toUpperChar_def)

lemma not_digit_paren: "\<not> is_digit (CHR ''('')"
  by (simp add: is_digit_def)

lemma dropWhile_spaces_append:
  assumes "list_all is_space ws" "t \<noteq> []" "\<not> is_space (hd t)"
  shows "dropWhile is_space (ws @ t) = t" and "takeWhile is_space (ws @ t) = ws"
proof -
  from assms(1) have w: "\<And>x. x \<in> set ws \<Longrightarrow> is_space x" by (simp add: list_all_iff)
  from assms(2,3) have d: "dropWhile is_space t = t" and k: "takeWhile is_space t = []"
    by (cases t, simp_all)+
  from w d show "dropWhile is_space (ws @ t) = t" by simp
  from w k show "takeWhile is_space (ws @ t) = ws" by simp
qed

lemma spaces_split:
  "\<exists>ws. a = ws @ dropWhile is_space a \<and> list_all is_space ws"
proof -
  have "a = takeWhile is_space a @ dropWhile is_space a" by simp
  moreover have "list_all is_space (takeWhile is_space a)"
    by (simp add: list_all_iff) (meson set_takeWhileD)
  ultimately show ?thesis by blast
qed

lemma phone_shape_hd: "phone_shape p \<Longrightarrow> p \<noteq> [] \<and> is_digit (hd p)"
  by (auto simp: phone_shape_def) (case_tac a, simp_all)

lemma fmtPhoneMatch_iff:
  "fmtPhoneMatch a = Some p \<longleftrightarrow>
     (\<exists>ws rest. a = ws @ p @ rest \<and> list_all is_space ws \<and> phone_shape p)"
proof
  assume "fmtPhoneMatch a = Some p"
  then have h: "phone_at (dropWhile is_space a)" "p = take 12 (dropWhile is_space a)"
    by (auto simp: fmtPhoneMatch_def Let_def split: if_splits)
  from h(1) obtain q rest where q: "dropWhile is_space a = q @ rest" "phone_shape q"
    by (auto simp: phone_at_iff)
  from phone_shape_length [OF q(2)] q(1) h(2) have "p = q" by simp
  with q spaces_split [of a] show "\<exists>ws rest. a = ws @ p @ rest \<and> list_all is_space ws \<and> phone_shape p"
    by metis
next
  assume "\<exists>ws rest. a = ws @ p @ rest \<and> list_all is_space ws \<and> phone_shape p"
  then obtain ws rest where a: "a = ws @ p @ rest" "list_all is_space ws" "phone_shape p"
    by blast
  from phone_shape_hd [OF a(3)] have "p @ rest \<noteq> []" "\<not> is_space (hd (p @ rest))"
    by (simp_all add: digit_not_space)
  from dropWhile_spaces_append(1) [OF a(2) this] have d: "dropWhile is_space a = p @ rest"
    by (simp add: a(1))
  have "phone_at (p @ rest)" using a(3) by (auto simp: phone_at_iff)
  moreover have "take 12 (p @ rest) = p" using phone_shape_length [OF a(3)] by simp
  ultimately show "fmtPhoneMatch a = Some p" by (simp add: fmtPhoneMatch_def d)
qed

lemma rawPhoneMatch_iff:
  "rawPhoneMatch a = Some d \<longleftrightarrow>
     (\<exists>ws c rest. a = ws @ d @ c # rest \<and> list_all is_space ws \<and> length d = 10 \<and>
        list_all is_digit d \<and> (is_space c \<or> is_upper c))"
proof
  let ?r = "dropWhile is_space a"
  assume "rawPhoneMatch a = Some d"
  then have h: "digits_at 10 ?r" "d = take 10 ?r"
    and n: "(case drop 10 ?r of [] \<Rightarrow> False | c # _ \<Rightarrow> is_space c \<or> is_upper c)"
    by (auto simp: rawPhoneMatch_def Let_def split: if_splits)
  from n obtain c rest where c: "drop 10 ?r = c # rest" "is_space c \<or> is_upper c"
    by (cases "drop 10 ?r") auto
  have "?r = take 10 ?r @ drop 10 ?r" by simp
  with c(1) h(2) have r: "?r = d @ c # rest" by simp
  from h have "length d = 10" "list_all is_digit d" by (simp_all add: digits_at_def)
  with r c(2) spaces_split [of a]
  show "\<exists>ws c rest. a = ws @ d @ c # rest \<and> list_all is_space ws \<and> length d = 10 \<and>
        list_all is_digit d \<and> (is_space c \<or> is_upper c)"
    by metis
next
  assume "\<exists>ws c rest. a = ws @ d @ c # rest \<and> list_all is_space ws \<and> length d = 10 \<and>
        list_all is_digit d \<and> (is_space c \<or> is_upper c)"
  then obtain ws c rest where a: "a = ws @ d @ c # rest" "list_all is_space ws" "length d = 10"
    "list_all is_digit d" "is_space c \<or> is_upper c"
    by blast
  from a(3,4) have "d \<noteq> []" "is_digit (hd d)" by (cases d, simp_all)+
  then have "d @ c # rest \<noteq> []" "\<not> is_space (hd (d @ c # rest))"
    by (simp_all add: digit_not_space)
  from dropWhile_spaces_append(1) [OF a(2) this] have d: "dropWhile is_space a = d @ c # rest"
    by (simp add: a(1))
  have "digits_at 10 (d @ c # rest)" using a(3,4) by (simp add: digits_at_def)
  moreover have "take 10 (d @ c # rest) = d" "drop 10 (d @ c # rest) = c # rest"
    using a(3) by simp_all
  ultimately show "rawPhoneMatch a = Some d" using a(5) by (simp add: rawPhoneMatch_def d)
qed

lemma missing_upper: "toUpperCase ''(missing)'' = ''(MISSING)''"
  by code_simp

lemma startsWith_ci_missing:
  "startsWith_ci r ''(missing)'' \<longleftrightarrow>
     9 \<le> length r \<and> toUpperCase (take 9 r) = ''(MISSING)''"
proof -
  have "length ''(missing)'' = 9" by simp
  then show ?thesis unfolding startsWith_ci_def missing_upper by (simp only:)
qed

lemma missingPhoneMatch_iff:
  "missingPhoneMatch a \<noteq> None \<longleftrightarrow>
     (\<exists>ws m rest. a = ws @ m @ rest \<and> list_all is_space ws \<and> toUpperCase m = ''(MISSING)'')"
proof
  let ?r = "dropWhile is_space a"
  assume "missingPhoneMatch a \<noteq> None"
  then have "startsWith_ci ?r ''(missing)''"
    by (auto simp: missingPhoneMatch_def Let_def split: if_splits)
  then have "toUpperCase (take 9 ?r) = ''(MISSING)''"
    by (simp only: startsWith_ci_missing)
  moreover have "?r = take 9 ?r @ drop 9 ?r" by simp
  ultimately show "\<exists>ws m rest. a = ws @ m @ rest \<and> list_all is_space ws \<and> toUpperCase m = ''(MISSING)''"
    using spaces_split [of a] by metis
next
  assume "\<exists>ws m rest. a = ws @ m @ rest \<and> list_all is_space ws \<and> toUpperCase m = ''(MISSING)''"
  then obtain ws m rest where a: "a = ws @ m @ rest" "list_all is_space ws"
    "toUpperCase m = ''(MISSING)''" by blast
  from a(3) have "length (toUpperCase m) = 9" by simp
  then have lm: "length m = 9" by (simp add: toUpperCase_length)
  then obtain c m' where m: "m = c # m'" by (cases m) auto
  with a(3) have "toUpperChar c = CHR ''(''" by (simp add: toUpperCase_def)
  then have "\<not> is_space c" by (auto simp: is_space_def toUpperChar_def)
  with m have "m @ rest \<noteq> []" "\<not> is_space (hd (m @ rest))" by simp_all
  from dropWhile_spaces_append(1) [OF a(2) this] have d: "dropWhile is_space a = m @ rest"
    by (simp add: a(1))
  have "startsWith_ci (m @ rest) ''(missing)''"
    unfolding startsWith_ci_missing using lm a(3) by simp
  then show "missingPhoneMatch a \<noteq> None" by (simp add: missingPhoneMatch_def d)
qed

lemma missing_excludes_phone:
  assumes "missingPhoneMatch a \<noteq> None"
  shows "fmtPhoneMatch a = None" and "rawPhoneMatch a = None"
proof -
  let ?r = "dropWhile is_space a"
  from assms have "startsWith_ci ?r ''(missing)''"
    by (auto simp: missingPhoneMatch_def Let_def split: if_splits)
  then have l: "9 \<le> length ?r" and u: "toUpperCase (take 9 ?r) = ''(MISSING)''"
    by (simp_all only: startsWith_ci_missing)
  from l obtain c cs where r: "?r = c # cs" by (cases ?r) auto
  with u have c: "toUpperChar c = CHR ''(''" by (simp add: toUpperCase_def)
  have nd: "\<not> is_digit c"
  proof
    assume "is_digit c"
    with c digit_upper have "is_digit (CHR ''('')" by metis
    with not_digit_paren show False ..
  qed
  then have "\<not> digits_at 3 ?r" "\<not> digits_at 10 ?r" by (simp_all add: digits_at_def r)
  then show "fmtPhoneMatch a = None" and "rawPhoneMatch a = None"
    by (simp_all add: fmtPhoneMatch_def rawPhoneMatch_def phone_at_def)
qed

lemma extractPhone_data:
  assumes "find_first epic_at l = Some i"
  shows "fst (extractPhone l (take 11 (drop i l))) =
           (case fmtPhoneMatch (drop (i + 11) l) of
              Some p \<Rightarrow> Some p
            | None \<Rightarrow> map_option dashed (rawPhoneMatch (drop (i + 11) l)))"
proof -
  from find_first_Some [OF assms] have "epic_at (drop i l)" by simp
  from epic_at_length [OF this] have len: "length (take 11 (drop i l)) = 11" by simp
  then have ne: "take 11 (drop i l) \<noteq> []" by auto
  have e: "indexOf l (take 11 (drop i l)) + int (length (take 11 (drop i l))) = int (i + 11)"
    unfolding indexOf_epic [OF assms] len by simp
  have a: "substring_from l (indexOf l (take 11 (drop i l)) + int (length (take 11 (drop i l)))) =
      drop (i + 11) l"
    unfolding e by (rule substring_from_drop)
  have p: "0 < indexOf l (take 11 (drop i l)) + int (length (take 11 (drop i l)))"
    unfolding e by simp
  have x: "fst (extractPhone l (take 11 (drop i l))) =
     (case (if missingPhoneMatch (drop (i + 11) l) \<noteq> None then None
            else fmtPhoneMatch (drop (i + 11) l)) of
        Some p \<Rightarrow> Some p
      | None \<Rightarrow> map_option dashed (rawPhoneMatch (drop (i + 11) l)))"
    unfolding extractPhone_def Let_def
    by (simp only: ne a p if_True if_False simp_thms)
       (simp add: dashed_def split: option.splits)
  show ?thesis
  proof (cases "missingPhoneMatch (drop (i + 11) l) = None")
    case True
    then show ?thesis by (simp add: x)
  next
    case False
    from missing_excludes_phone [OF False] False show ?thesis by (simp add: x)
  qed
qed

lemma dashed_digits:
  assumes "length d = 10" "list_all is_digit d"
  shows "phone_shape (dashed d)" and "filter is_digit (dashed d) = d"
proof -
  have p: "list_all is_digit (take 3 d)" "list_all is_digit (take 3 (drop 3 d))"
    "list_all is_digit (drop 6 d)"
    using assms(2) by (auto simp: list_all_iff dest: in_set_takeD in_set_dropD)
  have "length (take 3 d) = 3" "length (take 3 (drop 3 d)) = 3" "length (drop 6 d) = 4"
    using assms(1) by simp_all
  with p show "phone_shape (dashed d)"
    unfolding phone_shape_def dashed_def by blast
  have f: "filter is_digit xs = xs" if "list_all is_digit xs" for xs
    using that by (simp add: list_all_iff)
  have "filter is_digit (dashed d) = take 3 d @ take 3 (drop 3 d) @ drop 6 d"
    by (simp add: dashed_def f p is_digit_def)
  also have "\<dots> = take 3 d @ take 3 (drop 3 d) @ drop 3 (drop 3 d)"
    by simp
  also have "\<dots> = d"
    by (simp only: append_take_drop_id)
  finally show "filter is_digit (dashed d) = d" .
qed

lemma raw_excludes_fmt:
  assumes "rawPhoneMatch a = Some d"
  shows "fmtPhoneMatch a = None"
proof -
  let ?r = "dropWhile is_space a"
  from assms have h: "digits_at 10 ?r"
    by (auto simp: rawPhoneMatch_def Let_def split: if_splits)
  then obtain ds b where r: "?r = ds @ b" "length ds = 10" "list_all is_digit ds"
    by (auto simp: digits_at_iff)
  have "\<not> startsWith (drop 3 ?r) ''-''"
  proof
    assume "startsWith (drop 3 ?r) ''-''"
    then obtain z where z: "drop 3 ?r = CHR ''-'' # z" by (auto simp: startsWith_dash)
    from r(1,2) have "drop 3 ?r = drop 3 ds @ b" by simp
    moreover from r(2) obtain y ys where y: "drop 3 ds = y # ys" by (cases "drop 3 ds") auto
    ultimately have "y = CHR ''-''" using z by simp
    moreover have "y \<in> set ds" using y by (metis in_set_dropD list.set_intros(1))
    ultimately have "is_digit (CHR ''-'')" using r(3) by (auto simp: list_all_iff)
    then show False by (simp add: is_digit_def)
  qed
  then show ?thesis by (simp add: fmtPhoneMatch_def phone_at_def)
qed

lemma phone_row_data:
  assumes "find_first epic_at l = Some i"
  shows "phoneNumber (parseDischargeRow l) =
           (case fmtPhoneMatch (drop (i + 11) l) of
              Some p \<Rightarrow> Some p
            | None \<Rightarrow> map_option dashed (rawPhoneMatch (drop (i + 11) l)))"
  unfolding phoneNumber_row row_epicId [OF assms] by (rule extractPhone_data [OF assms])

section \<open>The spans around the date\<close>

lemma find_last_Some: "find_last P s = Some k \<Longrightarrow> k \<le> length s \<and> P (drop k s)"
proof (induction s arbitrary: k)
  case Nil
  then show ?case by (simp split: if_splits)
next
  case (Cons c cs)
  then show ?case by (auto split: option.splits if_splits)
qed

lemma indexOf_from_ge:
  assumes "0 \<le> indexOf_from s p (int n)" "n \<le> length s"
  shows "int n \<le> indexOf_from s p (int n)"
proof -
  from assms(2) have k: "nat (min (max (int n) 0) (int (length s))) = n" by simp
  show ?thesis using assms(1) unfolding indexOf_from_def Let_def k
    by (simp split: option.splits)
qed

lemma before_disposition:
  "\<exists>span rest. a = span @ rest \<and>
     (if disp = ''Unknown'' then rest = [] else span = [] \<or> prefix disp rest) \<and>
     (if disp \<noteq> ''Unknown'' then substring a 0 (lastIndexOf a disp) else a) = span"
proof (cases "disp = ''Unknown''")
  case True
  then show ?thesis by simp
next
  case False
  show ?thesis
  proof (cases "find_last (\<lambda>t. startsWith t disp) a")
    case None
    then have "substring a 0 (lastIndexOf a disp) = []"
      by (simp add: lastIndexOf_def substring_def Let_def)
    with False show ?thesis by simp
  next
    case (Some k)
    from find_last_Some [OF Some] have k: "k \<le> length a" "prefix disp (drop k a)"
      by (simp_all add: startsWith_def)
    have "substring a 0 (lastIndexOf a disp) = take k a"
      by (simp add: lastIndexOf_def Some substring_take)
    moreover have "a = take k a @ drop k a" by simp
    ultimately show ?thesis using False k(2) by metis
  qed
qed

lemma extractMiddle_data:
  assumes e: "find_first epic_at l = Some i" and d: "find_first date_at l = Some j"
  shows "\<exists>start span rest. int (i + 11) \<le> start \<and> drop (j + 10) l = span @ rest \<and>
     (if disp = ''Unknown'' then rest = [] else span = [] \<or> prefix disp rest) \<and>
     extractMiddle l (take 11 (drop i l)) (take 10 (drop j l)) pm disp =
       (trim (substring l start (int j)),
        (case fst (splitPcpAndInsurance (trim span)) of
           None \<Rightarrow> None
         | Some p \<Rightarrow> if p \<noteq> [] \<and> includes_str (toLowerCase p) ''missing'' then None else Some p),
        snd (splitPcpAndInsurance (trim span)))"
proof -
  let ?E = "take 11 (drop i l)" and ?D = "take 10 (drop j l)"
  from find_first_Some [OF e] have ei: "epic_at (drop i l)" by simp
  from find_first_Some [OF d] have dj: "date_at (drop j l)" by simp
  from epic_at_length [OF ei] have lenE: "length ?E = 11" and il: "i + 11 \<le> length l"
    by simp_all
  from date_at_length [OF dj] have lenD: "length ?D = 10" by simp
  have ee: "indexOf l ?E + int (length ?E) = int (i + 11)"
    unfolding indexOf_epic [OF e] lenE by simp
  have dd: "int j + int (length ?D) = int (j + 10)"
    unfolding lenD by simp
  define start where "start =
    (case pm of
       None \<Rightarrow> int (i + 11)
     | Some matchStr \<Rightarrow>
         (let phoneIdx = indexOf_from l matchStr (int (i + 11))
          in if phoneIdx \<ge> 0 then phoneIdx + int (length matchStr) else int (i + 11)))"
  have s: "int (i + 11) \<le> start"
  proof (cases pm)
    case None
    then show ?thesis by (simp add: start_def)
  next
    case (Some m)
    show ?thesis
    proof (cases "0 \<le> indexOf_from l m (int (i + 11))")
      case True
      from indexOf_from_ge [OF True il] have "int (i + 11) \<le> indexOf_from l m (int (i + 11))" .
      then show ?thesis using True Some by (simp add: start_def Let_def)
    next
      case False
      then show ?thesis using Some by (simp add: start_def Let_def)
    qed
  qed
  from before_disposition [of "drop (j + 10) l" disp] obtain span rest where
    b: "drop (j + 10) l = span @ rest"
       "if disp = ''Unknown'' then rest = [] else span = [] \<or> prefix disp rest"
       "(if disp \<noteq> ''Unknown''
         then substring (drop (j + 10) l) 0 (lastIndexOf (drop (j + 10) l) disp)
         else drop (j + 10) l) = span"
    by blast
  have "extractMiddle l ?E ?D pm disp =
       (trim (substring l start (int j)),
        (case fst (splitPcpAndInsurance (trim span)) of
           None \<Rightarrow> None
         | Some p \<Rightarrow> if p \<noteq> [] \<and> includes_str (toLowerCase p) ''missing'' then None else Some p),
        snd (splitPcpAndInsurance (trim span)))"
    unfolding extractMiddle_def Let_def ee dd substring_from_drop indexOf_date [OF d] b(3)
      start_def [symmetric, unfolded Let_def]
    by (simp only: case_prod_beta)
  with s b(1,2) show ?thesis by blast
qed

lemma row_with_date:
  assumes e: "find_first epic_at l = Some i" and d: "find_first date_at l = Some j"
  defines "M \<equiv> extractMiddle l (take 11 (drop i l)) (take 10 (drop j l))
                  (snd (extractPhone l (take 11 (drop i l))))
                  (case extractDisposition l of Some disp \<Rightarrow> disp | None \<Rightarrow> ''Unknown'')"
  shows "dischargeDate (parseDischargeRow l) = take 10 (drop j l)"
    and "attendingPhysician (parseDischargeRow l) = normalizeProviderName (fst M)"
    and "primaryCareProvider (parseDischargeRow l) =
           (case fst (snd M) of
              None \<Rightarrow> None
            | Some p \<Rightarrow> if p \<noteq> [] then Some (normalizeProviderName p) else Some p)"
    and "insurance (parseDischargeRow l) =
           (if snd (snd M) = [] then ''Unknown'' else snd (snd M))"
    and "disposition (parseDischargeRow l) =
           (case extractDisposition l of Some disp \<Rightarrow> disp | None \<Rightarrow> ''Unknown'')"
proof -
  have fm: "first_match epic_at 11 l = Some (take 11 (drop i l))"
    "first_match date_at 10 l = Some (take 10 (drop j l))"
    by (simp_all add: first_match_def e d)
  have ne: "(take 11 (drop i l) = []) = False"
    using row_epicId_nonempty [OF e] by simp
  show "dischargeDate (parseDischargeRow l) = take 10 (drop j l)"
    by (simp add: dischargeDate_row fm)
  show "attendingPhysician (parseDischargeRow l) = normalizeProviderName (fst M)"
    by (simp only: parseDischargeRow_def Let_def case_prod_beta fm
        ParsedDischarge.select_convs ne simp_thms if_True option.simps M_def)
  show "primaryCareProvider (parseDischargeRow l) =
           (case fst (snd M) of
              None \<Rightarrow> None
            | Some p \<Rightarrow> if p \<noteq> [] then Some (normalizeProviderName p) else Some p)"
    by (simp only: parseDischargeRow_def Let_def case_prod_beta fm
        ParsedDischarge.select_convs ne simp_thms if_True option.simps M_def)
  show "insurance (parseDischargeRow l) =
           (if snd (snd M) = [] then ''Unknown'' else snd (snd M))"
    by (simp only: parseDischargeRow_def Let_def case_prod_beta fm
        ParsedDischarge.select_convs ne simp_thms if_True option.simps M_def)
  show "disposition (parseDischargeRow l) =
           (case extractDisposition l of Some disp \<Rightarrow> disp | None \<Rightarrow> ''Unknown'')"
    by (simp only: parseDischargeRow_def Let_def case_prod_beta
        ParsedDischarge.select_convs)
qed

lemma row_without_date:
  assumes "find_first date_at l = None"
  shows "dischargeDate (parseDischargeRow l) = []"
    and "attendingPhysician (parseDischargeRow l) = []"
    and "primaryCareProvider (parseDischargeRow l) = None"
    and "insurance (parseDischargeRow l) = ''Unknown''"
proof -
  have fm: "first_match date_at 10 l = None" by (simp add: first_match_def assms)
  have n: "normalizeProviderName [] = []" by (simp add: normalizeProviderName_def)
  show "dischargeDate (parseDischargeRow l) = []" by (simp add: dischargeDate_row fm)
  show "attendingPhysician (parseDischargeRow l) = []"
    by (simp only: parseDischargeRow_def Let_def case_prod_beta fm option.case
        ParsedDischarge.select_convs simp_thms if_False fst_conv snd_conv n)
  show "primaryCareProvider (parseDischargeRow l) = None"
    by (simp only: parseDischargeRow_def Let_def case_prod_beta fm option.case
        ParsedDischarge.select_convs simp_thms if_False fst_conv snd_conv)
  show "insurance (parseDischargeRow l) = ''Unknown''"
    by (simp only: parseDischargeRow_def Let_def case_prod_beta fm option.case
        ParsedDischarge.select_convs simp_thms if_False if_True fst_conv snd_conv)
qed

lemma split_ins_nonempty: "snd (splitPcpAndInsurance t) \<noteq> []"
proof (cases "first_pattern sorted_patterns t")
  case None
  then show ?thesis by (simp add: splitPcpAndInsurance_def)
next
  case (Some r)
  obtain pcp ins where r: "r = (pcp, ins)" by (cases r) auto
  from first_pattern_Some_mem [OF Some [unfolded r]] have "ins \<in> set INSURANCE_PATTERNS"
    by (simp add: set_sorted_patterns)
  then have "ins \<noteq> []" by (rule patterns_nonempty)
  with Some r show ?thesis by (simp add: splitPcpAndInsurance_def)
qed

lemma split_ins_cases:
  "snd (splitPcpAndInsurance t) \<in> set INSURANCE_PATTERNS \<or>
   snd (splitPcpAndInsurance t) = ''Unknown'' \<or>
   (snd (splitPcpAndInsurance t) = trim t \<and> trim t \<noteq> [] \<and>
    (\<forall>p\<in>set INSURANCE_PATTERNS. \<not> occurs p t) \<and> \<not> whole_word_credential t)"
proof (cases "first_pattern sorted_patterns t")
  case None
  then have n: "\<forall>p\<in>set INSURANCE_PATTERNS. \<not> occurs p t"
    by (simp add: first_pattern_None set_sorted_patterns)
  from split_no_pattern [OF n] n show ?thesis by (auto split: if_splits)
next
  case (Some r)
  obtain pcp ins where r: "r = (pcp, ins)" by (cases r) auto
  from first_pattern_Some_mem [OF Some [unfolded r]] have "ins \<in> set INSURANCE_PATTERNS"
    by (simp add: set_sorted_patterns)
  with Some r show ?thesis by (cases "t = []") (simp_all add: splitPcpAndInsurance_def)
qed

lemma includes_Nil_missing: "\<not> includes_str [] ''missing''"
  by (simp add: includes_str_def startsWith_def)

lemma normalizeProviderName_Nil: "normalizeProviderName [] = []"
  by (simp add: normalizeProviderName_def)

lemma row_middle:
  assumes e: "find_first epic_at l = Some i" and d: "find_first date_at l = Some j"
  shows "\<exists>start span rest. int (i + 11) \<le> start \<and> drop (j + 10) l = span @ rest \<and>
     (if disposition (parseDischargeRow l) = ''Unknown'' then rest = []
      else span = [] \<or> prefix (disposition (parseDischargeRow l)) rest) \<and>
     attendingPhysician (parseDischargeRow l) =
       normalizeProviderName (trim (substring l start (int j))) \<and>
     insurance (parseDischargeRow l) = snd (splitPcpAndInsurance (trim span)) \<and>
     primaryCareProvider (parseDischargeRow l) =
       (case fst (splitPcpAndInsurance (trim span)) of
          None \<Rightarrow> None
        | Some p \<Rightarrow> if includes_str (toLowerCase p) ''missing'' then None
                    else Some (normalizeProviderName p))"
proof -
  let ?r = "parseDischargeRow l"
  let ?pm = "snd (extractPhone l (take 11 (drop i l)))"
  note row = row_with_date [OF e d]
  from extractMiddle_data [OF e d, of "disposition ?r" ?pm] obtain start span rest where
    m: "int (i + 11) \<le> start" "drop (j + 10) l = span @ rest"
       "if disposition ?r = ''Unknown'' then rest = [] else span = [] \<or> prefix (disposition ?r) rest"
       "extractMiddle l (take 11 (drop i l)) (take 10 (drop j l)) ?pm (disposition ?r) =
         (trim (substring l start (int j)),
          (case fst (splitPcpAndInsurance (trim span)) of
             None \<Rightarrow> None
           | Some p \<Rightarrow> if p \<noteq> [] \<and> includes_str (toLowerCase p) ''missing'' then None else Some p),
          snd (splitPcpAndInsurance (trim span)))"
    by blast
  note mm = m(4) [unfolded row(5)]
  have a: "attendingPhysician ?r = normalizeProviderName (trim (substring l start (int j)))"
    unfolding row(2) mm by simp
  have b: "insurance ?r = snd (splitPcpAndInsurance (trim span))"
    unfolding row(4) mm using split_ins_nonempty [of "trim span"] by simp
  have c: "primaryCareProvider ?r =
       (case fst (splitPcpAndInsurance (trim span)) of
          None \<Rightarrow> None
        | Some p \<Rightarrow> if includes_str (toLowerCase p) ''missing'' then None
                    else Some (normalizeProviderName p))"
    unfolding row(3) mm
    by (cases "fst (splitPcpAndInsurance (trim span))")
       (auto simp: includes_Nil_missing normalizeProviderName_Nil toLowerCase_def)
  from m(1,2,3) a b c show ?thesis by blast
qed

lemma record_of_data_line:
  "l \<in> set (data_lines s) \<Longrightarrow> parseDischargeRow l \<in> set (records (parseDischargeText s))"
  by (simp add: records_parse)

lemma digits_follow_digits_at:
  assumes "digits_follow P a d"
  shows "digits_at 10 (dropWhile is_space a)"
proof -
  from assms obtain ws c rest where a: "a = ws @ d @ c # rest" "list_all is_space ws"
    "length d = 10" "list_all is_digit d"
    unfolding digits_follow_def by blast
  from a(3) obtain x xs where d: "d = x # xs" by (cases d) auto
  with a(4) have "is_digit x" by simp
  then have "\<not> is_space x" by (rule digit_not_space)
  with d have "d @ c # rest \<noteq> []" "\<not> is_space (hd (d @ c # rest))" by simp_all
  from dropWhile_spaces_append(1) [OF a(2) this]
  have "dropWhile is_space a = d @ c # rest" unfolding a(1) .
  with a(3,4) show ?thesis by (simp add: digits_at_def)
qed
section \<open>The anchor gate\<close>

text \<open>
  C1, as the code has it. The records of the result are the rows of exactly those
  normalized lines that contain the letters EP followed by nine digits, in their order;
  every other line contributes no record. The anchor is the literal EP, not any two
  uppercase letters.
\<close>

theorem anchor_gate:
  "records (parseDischargeText s) =
     map parseDischargeRow (filter has_EP_identifier (normalized_lines s)) \<and>
   map rawText (records (parseDischargeText s)) =
     filter has_EP_identifier (normalized_lines s)"
  by (simp add: records_parse data_lines_spec rawText_row o_def)

theorem anchor_gate_witness:
  "map rawText (records (parseDischargeText (''Title'' @ [CHR 0x0A] @ ''Doe, JEP123456789Home''))) =
     [''Doe, JEP123456789Home''] \<and>
   filter has_EP_identifier (normalized_lines (''Title'' @ [CHR 0x0A] @ ''Doe, JEP123456789Home'')) =
     [''Doe, JEP123456789Home'']"
proof -
  have a: "map rawText (records (parseDischargeText (''Title'' @ [CHR 0x0A] @ ''Doe, JEP123456789Home''))) =
     [''Doe, JEP123456789Home'']"
    by code_simp
  have b: "filter has_EP_identifier (normalized_lines (''Title'' @ [CHR 0x0A] @ ''Doe, JEP123456789Home'')) =
     map rawText (records (parseDischargeText (''Title'' @ [CHR 0x0A] @ ''Doe, JEP123456789Home'')))"
    by (rule anchor_gate [THEN conjunct2, symmetric])
  show ?thesis unfolding b using a by (simp only: simp_thms)
qed

text \<open>
  A line with two other uppercase letters and nine digits matches the pattern as the
  claim words it, and yields no record.
\<close>

theorem anchor_gate_counterexample:
  "normalized_lines ''AB123456789'' = [''AB123456789''] \<and>
   spec_data_row ''AB123456789'' \<and>
   records (parseDischargeText ''AB123456789'') = []"
  by code_simp

section \<open>The confidence schedule\<close>

text \<open>
  The confidence as \<^const>\<open>parseDischargeRow\<close> computes it, penalty by penalty: 0.2 for
  an empty identifier, 0.2 for an empty date, 0.1 for an unknown disposition, 0.2 for an
  empty name, 0.1 for an absent phone number, 0.1 for an absent provider, and 0.1 for the
  payer Unknown when the splitter returned it, which needs both the identifier and the
  date.
\<close>

lemma penalty_sum:
  fixes x d :: real
  shows "(if b then x - d else x) = x - (if b then d else 0)"
  by simp

lemma confidence_local:
  "confidence (parseDischargeRow l) =
     (let E = (case first_match epic_at 11 l of Some m \<Rightarrow> m | None \<Rightarrow> []);
          D = (case first_match date_at 10 l of Some m \<Rightarrow> m | None \<Rightarrow> []);
          M = (if first_match date_at 10 l \<noteq> None \<and> E \<noteq> []
               then extractMiddle l E D (snd (extractPhone l E))
                      (case extractDisposition l of Some disp \<Rightarrow> disp | None \<Rightarrow> ''Unknown'')
               else ([], None, []))
      in max 0 (real_of_int (round (((1 :: real) -
           (if E = [] then 2 / 10 else 0) -
           (if D = [] then 2 / 10 else 0) -
           (if extractDisposition l = None then 1 / 10 else 0) -
           (if extractName l E = [] then 2 / 10 else 0) -
           (if phoneNumber (parseDischargeRow l) = None \<or>
               phoneNumber (parseDischargeRow l) = Some [] then 1 / 10 else 0) -
           (if primaryCareProvider (parseDischargeRow l) = None \<or>
               primaryCareProvider (parseDischargeRow l) = Some [] then 1 / 10 else 0) -
           (if snd (snd M) = ''Unknown'' then 1 / 10 else 0)) * 100)) / 100))"
  by (simp only: parseDischargeRow_def Let_def case_prod_beta ParsedDischarge.select_convs
      penalty_sum [of _ _ "2 / 10"] penalty_sum [of _ _ "1 / 10"])

lemma first_match_Some:
  "first_match P n l = Some m \<Longrightarrow> \<exists>j. find_first P l = Some j \<and> m = take n (drop j l)"
  by (auto simp: first_match_def split: option.splits)

lemma unknown_not_disposition: "''Unknown'' \<notin> set DISPOSITIONS"
  by (simp add: DISPOSITIONS_def)

lemma disposition_unknown_iff:
  "extractDisposition l = None \<longleftrightarrow>
     (case extractDisposition l of Some disp \<Rightarrow> disp | None \<Rightarrow> ''Unknown'') = ''Unknown''"
proof (cases "extractDisposition l")
  case None
  then show ?thesis by simp
next
  case (Some d)
  then have "d \<in> set DISPOSITIONS"
    unfolding extractDisposition_def by (auto simp: find_Some_iff)
  with unknown_not_disposition have "d \<noteq> ''Unknown''" by auto
  with Some show ?thesis by simp
qed

lemma local_payer_unknown:
  fixes l :: string
  defines "E \<equiv> (case first_match epic_at 11 l of Some m \<Rightarrow> m | None \<Rightarrow> [])"
    and "D \<equiv> (case first_match date_at 10 l of Some m \<Rightarrow> m | None \<Rightarrow> [])"
  defines "M \<equiv> (if first_match date_at 10 l \<noteq> None \<and> E \<noteq> []
               then extractMiddle l E D (snd (extractPhone l E))
                      (case extractDisposition l of Some disp \<Rightarrow> disp | None \<Rightarrow> ''Unknown'')
               else ([], None, []))"
  shows "snd (snd M) = ''Unknown'' \<longleftrightarrow>
     insurance (parseDischargeRow l) = ''Unknown'' \<and> D \<noteq> [] \<and> E \<noteq> []"
proof (cases "first_match date_at 10 l \<noteq> None \<and> E \<noteq> []")
  case True
  then obtain d where d: "first_match date_at 10 l = Some d" by auto
  from True obtain e where e: "first_match epic_at 11 l = Some e"
    by (cases "first_match epic_at 11 l") (auto simp: E_def)
  from first_match_Some [OF d] obtain j where j: "find_first date_at l = Some j"
    "d = take 10 (drop j l)" by blast
  from first_match_Some [OF e] obtain i where i: "find_first epic_at l = Some i"
    "e = take 11 (drop i l)" by blast
  have EE: "E = take 11 (drop i l)" by (simp add: E_def e i(2))
  have DD: "D = take 10 (drop j l)" by (simp add: D_def d j(2))
  from find_first_Some [OF j(1)] have "date_at (drop j l)" by simp
  from date_at_length [OF this] have "length D = 10" by (simp add: DD)
  then have dn: "D \<noteq> []" by auto
  have MM: "M = extractMiddle l (take 11 (drop i l)) (take 10 (drop j l))
                  (snd (extractPhone l (take 11 (drop i l))))
                  (case extractDisposition l of Some disp \<Rightarrow> disp | None \<Rightarrow> ''Unknown'')"
    using True by (simp add: M_def EE DD)
  from extractMiddle_data [OF i(1) j(1),
      of "case extractDisposition l of Some disp \<Rightarrow> disp | None \<Rightarrow> ''Unknown''"
         "snd (extractPhone l (take 11 (drop i l)))"]
  obtain start span and rest :: string where
    x: "M = (trim (substring l start (int j)),
        (case fst (splitPcpAndInsurance (trim span)) of
           None \<Rightarrow> None
         | Some p \<Rightarrow> if p \<noteq> [] \<and> includes_str (toLowerCase p) ''missing'' then None else Some p),
        snd (splitPcpAndInsurance (trim span)))"
    unfolding MM by blast
  have "snd (snd M) = snd (splitPcpAndInsurance (trim span))" unfolding x by simp
  with split_ins_nonempty have "snd (snd M) \<noteq> []" by simp
  with row_with_date(4) [OF i(1) j(1)] have "insurance (parseDischargeRow l) = snd (snd M)"
    unfolding MM by simp
  with dn True show ?thesis by simp
next
  case False
  then have "M = ([], None, [])" unfolding M_def by (simp only: if_False)
  then have "snd (snd M) = []" by simp
  moreover from False have "D = [] \<or> E = []"
    by (cases "first_match date_at 10 l") (auto simp: D_def)
  ultimately show ?thesis by auto
qed

lemma confidence_schedule:
  "confidence (parseDischargeRow l) =
     max 0 (real_of_int (round (((1 :: real) -
       (if epicId (parseDischargeRow l) = [] then 2 / 10 else 0) -
       (if dischargeDate (parseDischargeRow l) = [] then 2 / 10 else 0) -
       (if disposition (parseDischargeRow l) = ''Unknown'' then 1 / 10 else 0) -
       (if extractName l (epicId (parseDischargeRow l)) = [] then 2 / 10 else 0) -
       (if phoneNumber (parseDischargeRow l) = None \<or>
           phoneNumber (parseDischargeRow l) = Some [] then 1 / 10 else 0) -
       (if primaryCareProvider (parseDischargeRow l) = None \<or>
           primaryCareProvider (parseDischargeRow l) = Some [] then 1 / 10 else 0) -
       (if insurance (parseDischargeRow l) = ''Unknown'' \<and>
           dischargeDate (parseDischargeRow l) \<noteq> [] \<and>
           epicId (parseDischargeRow l) \<noteq> [] then 1 / 10 else 0)) * 100)) / 100)"
proof -
  have d: "disposition (parseDischargeRow l) =
      (case extractDisposition l of Some disp \<Rightarrow> disp | None \<Rightarrow> ''Unknown'')"
    by (simp only: parseDischargeRow_def Let_def case_prod_beta ParsedDischarge.select_convs)
  show ?thesis
    unfolding confidence_local [of l] Let_def local_payer_unknown
    unfolding disposition_unknown_iff [of l] d [symmetric]
      epicId_row [symmetric] dischargeDate_row [symmetric] ..
qed

text \<open>
  C2, at a line with no date. The splitter does not run, the local payer stays empty and
  is compared with Unknown before it is replaced by Unknown in the record: the record has
  the payer Unknown and the confidence 0.6, the penalties of the date, the phone number
  and the provider. With the penalty of the unresolved payer, which the claim includes, it
  would be 0.5.
\<close>

theorem payer_penalty_without_date:
  "map rawText (records (parseDischargeText ''Doe, JohnEP123456789Home'')) =
     [''Doe, JohnEP123456789Home''] \<and>
   dischargeDate (parseDischargeRow ''Doe, JohnEP123456789Home'') = [] \<and>
   phoneNumber (parseDischargeRow ''Doe, JohnEP123456789Home'') = None \<and>
   primaryCareProvider (parseDischargeRow ''Doe, JohnEP123456789Home'') = None \<and>
   patientName (parseDischargeRow ''Doe, JohnEP123456789Home'') = ''Doe, John'' \<and>
   disposition (parseDischargeRow ''Doe, JohnEP123456789Home'') = ''Home'' \<and>
   insurance (parseDischargeRow ''Doe, JohnEP123456789Home'') = ''Unknown'' \<and>
   confidence (parseDischargeRow ''Doe, JohnEP123456789Home'') = 6 / 10 \<and>
   confidence (parseDischargeRow ''Doe, JohnEP123456789Home'') \<noteq>
     max 0 (real_of_int (round ((1 - 2 / 10 - 1 / 10 - 1 / 10 - 1 / 10) * 100)) / 100)"
proof -
  let ?r = "parseDischargeRow ''Doe, JohnEP123456789Home''"
  have a: "map rawText (records (parseDischargeText ''Doe, JohnEP123456789Home'')) =
     [''Doe, JohnEP123456789Home''] \<and>
   dischargeDate ?r = [] \<and> phoneNumber ?r = None \<and> primaryCareProvider ?r = None \<and>
   patientName ?r = ''Doe, John'' \<and> disposition ?r = ''Home'' \<and>
   insurance ?r = ''Unknown'' \<and> confidence ?r = 6 / 10"
    by code_simp
  have b: "max 0 (real_of_int (round (((1 :: real) - 2 / 10 - 1 / 10 - 1 / 10 - 1 / 10) * 100)) / 100)
      = 5 / 10"
    by simp
  from a have c: "confidence ?r = 6 / 10" by (elim conjE)
  have "confidence ?r \<noteq>
     max 0 (real_of_int (round ((1 - 2 / 10 - 1 / 10 - 1 / 10 - 1 / 10) * 100)) / 100)"
    unfolding b c by simp
  with a show ?thesis by (simp only: simp_thms)
qed

section \<open>Totality\<close>

text \<open>
  C3. Every function of the embedding is a total function whose recursion terminates, and
  none has an error value: the source has no \<^verbatim>\<open>throw\<close>, and every group of a match is
  read under a test that the match succeeded. So \<^const>\<open>parseDischargeText\<close> returns a
  result for every text, which keeps the text. When the text is white space only (the
  empty text included) the result has no record and the default header fields; when no
  normalized line has the identifier anchor it has no record.
\<close>

theorem parse_total:
  "sourceText (parseDischargeText s) = s \<and>
   (list_all is_space s \<longrightarrow>
      parseDischargeText s =
        \<lparr> hospitalName = ''Unknown Hospital'', reportDate = [], records = [], sourceText = s \<rparr>) \<and>
   (list_all (\<lambda>l. \<not> has_EP_identifier l) (normalized_lines s) \<longrightarrow>
      records (parseDischargeText s) = [])"
proof (intro conjI impI)
  show "sourceText (parseDischargeText s) = s" by (rule sourceText_parse)
next
  assume "list_all is_space s"
  then have "normalized_lines s = []" by (rule normalized_lines_spaces)
  then show "parseDischargeText s =
    \<lparr> hospitalName = ''Unknown Hospital'', reportDate = [], records = [], sourceText = s \<rparr>"
    by (rule parse_no_lines)
next
  assume "list_all (\<lambda>l. \<not> has_EP_identifier l) (normalized_lines s)"
  then have "filter has_EP_identifier (normalized_lines s) = []"
    by (simp add: filter_empty_conv list_all_iff)
  then show "records (parseDischargeText s) = []"
    by (simp add: records_parse data_lines_spec)
qed

lemma no_EP_random_text: "\<not> has_EP_identifier ''Some random text''"
proof -
  have "find_first epic_at ''Some random text'' = None" by code_simp
  then show ?thesis using epic_found_iff [of "''Some random text''"] by simp
qed

theorem parse_total_witness:
  "list_all is_space ('' '' @ [CHR 0x0A] @ ''  '') \<and>
   parseDischargeText ('' '' @ [CHR 0x0A] @ ''  '') =
     \<lparr> hospitalName = ''Unknown Hospital'', reportDate = [], records = [],
       sourceText = '' '' @ [CHR 0x0A] @ ''  '' \<rparr> \<and>
   parseDischargeText [] =
     \<lparr> hospitalName = ''Unknown Hospital'', reportDate = [], records = [], sourceText = [] \<rparr> \<and>
   list_all (\<lambda>l. \<not> has_EP_identifier l) (normalized_lines ''Some random text'') \<and>
   records (parseDischargeText ''Some random text'') = []"
proof -
  have a: "list_all is_space ('' '' @ [CHR 0x0A] @ ''  '')" by code_simp
  have b: "list_all is_space []" by simp
  have n: "normalized_lines ''Some random text'' = [''Some random text'']" by code_simp
  have c: "list_all (\<lambda>l. \<not> has_EP_identifier l) (normalized_lines ''Some random text'')"
    unfolding n using no_EP_random_text by simp
  from parse_total [of "'' '' @ [CHR 0x0A] @ ''  ''"] parse_total [of "[]"]
    parse_total [of "''Some random text''"] a b c
  show ?thesis by blast
qed

section \<open>Bounds of the confidence\<close>

lemma penalty_le:
  fixes x d :: real
  shows "x \<le> 1 \<Longrightarrow> 0 \<le> d \<Longrightarrow> (if b then x - d else x) \<le> 1"
  by simp

lemma confidence_row:
  "\<exists>c::real. c \<le> 1 \<and>
     confidence (parseDischargeRow l) = max 0 (real_of_int (round (c * 100)) / 100)"
  apply (simp only: parseDischargeRow_def Let_def case_prod_beta ParsedDischarge.select_convs)
  apply (rule exI)
  apply (rule conjI)
   prefer 2
   apply (rule refl)
  apply (intro penalty_le)
         apply simp_all
  done

lemma rounded_bounds:
  fixes c :: real
  assumes "c \<le> 1"
  shows "0 \<le> max 0 (real_of_int (round (c * 100)) / 100)"
    and "max 0 (real_of_int (round (c * 100)) / 100) \<le> 1"
    and "\<exists>k::nat. k \<le> 100 \<and> max 0 (real_of_int (round (c * 100)) / 100) = real k / 100"
proof -
  show "0 \<le> max 0 (real_of_int (round (c * 100)) / 100)" by simp
  from assms have "c * 100 \<le> 100" by simp
  then have "round (c * 100) \<le> round (100 :: real)" by (rule round_mono)
  then have r: "round (c * 100) \<le> 100" by simp
  then show "max 0 (real_of_int (round (c * 100)) / 100) \<le> 1" by simp
  show "\<exists>k::nat. k \<le> 100 \<and> max 0 (real_of_int (round (c * 100)) / 100) = real k / 100"
  proof (cases "round (c * 100) \<le> 0")
    case True
    then have "max 0 (real_of_int (round (c * 100)) / 100) = real 0 / 100"
      by (simp add: max_def)
    then show ?thesis by blast
  next
    case False
    then have "max 0 (real_of_int (round (c * 100)) / 100) = real (nat (round (c * 100))) / 100"
      by (simp add: max_def)
    moreover have "nat (round (c * 100)) \<le> 100" using r by simp
    ultimately show ?thesis by blast
  qed
qed

text \<open>
  C4. The confidence of every record of the result lies between 0 and 1 and is a whole
  number of hundredths.
\<close>

theorem confidence_bounds:
  assumes "r \<in> set (records (parseDischargeText s))"
  shows "0 \<le> confidence r \<and> confidence r \<le> 1 \<and>
         (\<exists>k::nat. k \<le> 100 \<and> confidence r = real k / 100)"
proof -
  from assms obtain l where "r = parseDischargeRow l" by (auto simp: records_parse)
  with confidence_row [of l] obtain c :: real where
    c: "c \<le> 1" "confidence r = max 0 (real_of_int (round (c * 100)) / 100)"
    by auto
  from rounded_bounds [OF c(1)] show ?thesis unfolding c(2) by blast
qed

theorem confidence_bounds_witness:
  "parseDischargeRow ''Test, PatientEP00000000101-01-2024SomePlace''
     \<in> set (records (parseDischargeText ''Test, PatientEP00000000101-01-2024SomePlace'')) \<and>
   confidence (parseDischargeRow ''Test, PatientEP00000000101-01-2024SomePlace'') = 7 / 10 \<and>
   0 \<le> confidence (parseDischargeRow ''Test, PatientEP00000000101-01-2024SomePlace'') \<and>
   confidence (parseDischargeRow ''Test, PatientEP00000000101-01-2024SomePlace'') \<le> 1"
proof -
  have m: "parseDischargeRow ''Test, PatientEP00000000101-01-2024SomePlace''
     \<in> set (records (parseDischargeText ''Test, PatientEP00000000101-01-2024SomePlace''))"
    by code_simp
  have e: "confidence (parseDischargeRow ''Test, PatientEP00000000101-01-2024SomePlace'') = 7 / 10"
    by code_simp
  from confidence_bounds [OF m] m e show ?thesis by simp
qed

section \<open>Phone extraction\<close>

lemma phone_found:
  assumes "find_first epic_at l = Some i"
  shows "phone_follows (drop (i + 11) l) p \<Longrightarrow> phoneNumber (parseDischargeRow l) = Some p"
    and "digits_follow (\<lambda>c. is_space c \<or> is_upper c) (drop (i + 11) l) d \<Longrightarrow>
         phoneNumber (parseDischargeRow l) = Some (dashed d)"
    and "phoneNumber (parseDischargeRow l) = Some x \<Longrightarrow>
         phone_follows (drop (i + 11) l) x \<or>
         (\<exists>d. digits_follow (\<lambda>c. is_space c \<or> is_upper c) (drop (i + 11) l) d \<and> x = dashed d)"
    and "marker_follows (drop (i + 11) l) \<Longrightarrow> phoneNumber (parseDischargeRow l) = None"
proof -
  let ?a = "drop (i + 11) l"
  note ph = phone_row_data [OF assms]
  {
    assume "phone_follows ?a p"
    then have "fmtPhoneMatch ?a = Some p" unfolding phone_follows_def fmtPhoneMatch_iff .
    then show "phoneNumber (parseDischargeRow l) = Some p" unfolding ph by simp
  }
  {
    assume "digits_follow (\<lambda>c. is_space c \<or> is_upper c) ?a d"
    then have r: "rawPhoneMatch ?a = Some d" unfolding digits_follow_def rawPhoneMatch_iff .
    from raw_excludes_fmt [OF r] r show "phoneNumber (parseDischargeRow l) = Some (dashed d)"
      unfolding ph by simp
  }
  {
    assume x: "phoneNumber (parseDischargeRow l) = Some x"
    show "phone_follows ?a x \<or>
         (\<exists>d. digits_follow (\<lambda>c. is_space c \<or> is_upper c) ?a d \<and> x = dashed d)"
    proof (cases "fmtPhoneMatch ?a")
      case (Some p)
      with x have "fmtPhoneMatch ?a = Some x" unfolding ph by simp
      then have "phone_follows ?a x" unfolding phone_follows_def fmtPhoneMatch_iff .
      then show ?thesis ..
    next
      case None
      with x obtain d where d: "rawPhoneMatch ?a = Some d" "x = dashed d"
        unfolding ph by (cases "rawPhoneMatch ?a") auto
      from d(1) have "digits_follow (\<lambda>c. is_space c \<or> is_upper c) ?a d"
        unfolding digits_follow_def rawPhoneMatch_iff .
      with d(2) show ?thesis by blast
    qed
  }
  {
    assume "marker_follows ?a"
    then have "missingPhoneMatch ?a \<noteq> None" unfolding marker_follows_def missingPhoneMatch_iff .
    from missing_excludes_phone [OF this] show "phoneNumber (parseDischargeRow l) = None"
      unfolding ph by simp
  }
qed

lemma digits_follow_mono:
  "digits_follow P a d \<Longrightarrow> (\<And>c. P c \<Longrightarrow> Q c) \<Longrightarrow> digits_follow Q a d"
  unfolding digits_follow_def by blast

text \<open>
  C5, as the code has it. Let the first identifier of a data line start at \<open>i\<close>, so that
  the text after it starts at \<open>i + 11\<close>. When, after optional white space, that text
  has a phone number in the shape \<^verbatim>\<open>NNN-NNN-NNNN\<close>, the record has it verbatim. When,
  after optional white space, it has ten digits followed by a white-space character or an
  uppercase letter, the record has those ten digits, in their order, with the two hyphens
  put in. When it has neither a formatted phone number nor ten digits followed by white
  space or a letter of either case, and when it has the marker \<^verbatim>\<open>(missing)\<close> in any
  mix of cases, the phone number is absent. A phone number of the record has the shape
  \<^verbatim>\<open>NNN-NNN-NNNN\<close>, so it is never the empty string. Ten digits followed by a
  lowercase letter are left open: the comment of the source admits a letter there, its
  expression the letters A to Z.
\<close>

theorem phone_extraction:
  assumes "find_first epic_at l = Some i"
  shows "(\<forall>p. phone_follows (drop (i + 11) l) p \<longrightarrow>
            phoneNumber (parseDischargeRow l) = Some p) \<and>
         (\<forall>d. digits_follow (\<lambda>c. is_space c \<or> is_upper c) (drop (i + 11) l) d \<longrightarrow>
            phoneNumber (parseDischargeRow l) = Some (dashed d) \<and>
            phone_shape (dashed d) \<and> filter is_digit (dashed d) = d) \<and>
         ((\<forall>p. \<not> phone_follows (drop (i + 11) l) p) \<and>
          (\<forall>d. \<not> digits_follow (\<lambda>c. is_space c \<or> is_upper c \<or> is_lower c) (drop (i + 11) l) d) \<longrightarrow>
            phoneNumber (parseDischargeRow l) = None) \<and>
         (marker_follows (drop (i + 11) l) \<longrightarrow> phoneNumber (parseDischargeRow l) = None) \<and>
         phoneNumber (parseDischargeRow l) \<noteq> Some [] \<and>
         (\<forall>x. phoneNumber (parseDischargeRow l) = Some x \<longrightarrow> phone_shape x)"
proof -
  let ?a = "drop (i + 11) l"
  let ?r = "parseDischargeRow l"
  note ph = phone_found [OF assms]
  have shape: "phone_shape x" if x: "phoneNumber ?r = Some x" for x
  proof -
    from ph(3) [OF x] show ?thesis
    proof
      assume "phone_follows ?a x"
      then show ?thesis unfolding phone_follows_def by blast
    next
      assume "\<exists>d. digits_follow (\<lambda>c. is_space c \<or> is_upper c) ?a d \<and> x = dashed d"
      then obtain d where d: "digits_follow (\<lambda>c. is_space c \<or> is_upper c) ?a d" "x = dashed d"
        by blast
      from d(1) have "length d = 10" "list_all is_digit d" unfolding digits_follow_def by blast+
      from dashed_digits(1) [OF this] d(2) show ?thesis by simp
    qed
  qed
  have 1: "\<forall>p. phone_follows ?a p \<longrightarrow> phoneNumber ?r = Some p"
    using ph(1) by blast
  have 2: "\<forall>d. digits_follow (\<lambda>c. is_space c \<or> is_upper c) ?a d \<longrightarrow>
            phoneNumber ?r = Some (dashed d) \<and>
            phone_shape (dashed d) \<and> filter is_digit (dashed d) = d"
  proof (intro allI impI)
    fix d
    assume d: "digits_follow (\<lambda>c. is_space c \<or> is_upper c) ?a d"
    then have "length d = 10" "list_all is_digit d" unfolding digits_follow_def by blast+
    from dashed_digits [OF this] ph(2) [OF d]
    show "phoneNumber ?r = Some (dashed d) \<and>
            phone_shape (dashed d) \<and> filter is_digit (dashed d) = d" by blast
  qed
  have none: "phoneNumber ?r = None"
    if n: "(\<forall>p. \<not> phone_follows ?a p) \<and>
          (\<forall>d. \<not> digits_follow (\<lambda>c. is_space c \<or> is_upper c \<or> is_lower c) ?a d)"
  proof (cases "phoneNumber ?r")
    case None
    then show ?thesis .
  next
    case (Some x)
    from ph(3) [OF Some] n have
      "\<exists>d. digits_follow (\<lambda>c. is_space c \<or> is_upper c) ?a d" by blast
    then obtain d where "digits_follow (\<lambda>c. is_space c \<or> is_upper c) ?a d" ..
    then have "digits_follow (\<lambda>c. is_space c \<or> is_upper c \<or> is_lower c) ?a d"
      by (rule digits_follow_mono) blast
    with n show ?thesis by blast
  qed
  have 3: "(\<forall>p. \<not> phone_follows ?a p) \<and>
          (\<forall>d. \<not> digits_follow (\<lambda>c. is_space c \<or> is_upper c \<or> is_lower c) ?a d) \<longrightarrow>
          phoneNumber ?r = None" by (rule impI) (rule none)
  have 4: "marker_follows ?a \<longrightarrow> phoneNumber ?r = None" using ph(4) by blast
  have 5: "phoneNumber ?r \<noteq> Some []"
  proof
    assume "phoneNumber ?r = Some []"
    then have "phone_shape []" by (rule shape)
    then show False by (simp add: phone_shape_def)
  qed
  have 6: "\<forall>x. phoneNumber ?r = Some x \<longrightarrow> phone_shape x" using shape by blast
  from 1 2 3 4 5 6 show ?thesis by (intro conjI)
qed

theorem phone_extraction_witness:
  "find_first epic_at ''Doe, J EP123456789 555-867-5309 Ray, Al MD'' = Some 7 \<and>
   phone_follows (drop (7 + 11) ''Doe, J EP123456789 555-867-5309 Ray, Al MD'') ''555-867-5309'' \<and>
   phoneNumber (parseDischargeRow ''Doe, J EP123456789 555-867-5309 Ray, Al MD'') =
     Some ''555-867-5309'' \<and>
   phone_shape ''555-867-5309'' \<and>
   find_first epic_at ''Smith, JaneEP9876543212025551234Jones, MD Bob01-15-2024BCBSHome'' = Some 11 \<and>
   digits_follow (\<lambda>c. is_space c \<or> is_upper c)
     (drop (11 + 11) ''Smith, JaneEP9876543212025551234Jones, MD Bob01-15-2024BCBSHome'')
     ''2025551234'' \<and>
   phoneNumber (parseDischargeRow
     ''Smith, JaneEP9876543212025551234Jones, MD Bob01-15-2024BCBSHome'') =
     Some ''202-555-1234'' \<and>
   filter is_digit ''202-555-1234'' = ''2025551234'' \<and>
   find_first epic_at ''Doe, Jane EP111222333 (Missing) Bailey, Miranda MD'' = Some 10 \<and>
   marker_follows (drop (10 + 11) ''Doe, Jane EP111222333 (Missing) Bailey, Miranda MD'') \<and>
   phoneNumber (parseDischargeRow ''Doe, Jane EP111222333 (Missing) Bailey, Miranda MD'') = None \<and>
   find_first epic_at ''Mellow, Al EP222333444Ray, Al MD 01-15-2024 Home'' = Some 11 \<and>
   (\<forall>p. \<not> phone_follows (drop (11 + 11) ''Mellow, Al EP222333444Ray, Al MD 01-15-2024 Home'') p) \<and>
   (\<forall>d. \<not> digits_follow (\<lambda>c. is_space c \<or> is_upper c \<or> is_lower c)
          (drop (11 + 11) ''Mellow, Al EP222333444Ray, Al MD 01-15-2024 Home'') d) \<and>
   phoneNumber (parseDischargeRow ''Mellow, Al EP222333444Ray, Al MD 01-15-2024 Home'') = None"
proof -
  let ?f = "''Doe, J EP123456789 555-867-5309 Ray, Al MD''"
  let ?l = "''Smith, JaneEP9876543212025551234Jones, MD Bob01-15-2024BCBSHome''"
  let ?m = "''Doe, Jane EP111222333 (Missing) Bailey, Miranda MD''"
  let ?n = "''Mellow, Al EP222333444Ray, Al MD 01-15-2024 Home''"
  have ef: "find_first epic_at ?f = Some 7" by code_simp
  have "fmtPhoneMatch (drop (7 + 11) ?f) = Some ''555-867-5309''" by code_simp
  then have pf: "phone_follows (drop (7 + 11) ?f) ''555-867-5309''"
    unfolding phone_follows_def fmtPhoneMatch_iff .
  note tf = phone_extraction [OF ef]
  have el: "find_first epic_at ?l = Some 11" by code_simp
  have "rawPhoneMatch (drop (11 + 11) ?l) = Some ''2025551234''" by code_simp
  then have dl: "digits_follow (\<lambda>c. is_space c \<or> is_upper c) (drop (11 + 11) ?l) ''2025551234''"
    unfolding digits_follow_def rawPhoneMatch_iff .
  have dd: "dashed ''2025551234'' = ''202-555-1234''" by code_simp
  note tl = phone_extraction [OF el, THEN conjunct2, THEN conjunct1, rule_format, OF dl]
  have em: "find_first epic_at ?m = Some 10" by code_simp
  have "missingPhoneMatch (drop (10 + 11) ?m) \<noteq> None" by code_simp
  then have mm: "marker_follows (drop (10 + 11) ?m)"
    unfolding marker_follows_def missingPhoneMatch_iff .
  note tm = phone_extraction [OF em]
  have en: "find_first epic_at ?n = Some 11" by code_simp
  have "fmtPhoneMatch (drop (11 + 11) ?n) = None" by code_simp
  then have n1: "\<forall>p. \<not> phone_follows (drop (11 + 11) ?n) p"
    unfolding phone_follows_def fmtPhoneMatch_iff [symmetric] by simp
  have "\<not> digits_at 10 (dropWhile is_space (drop (11 + 11) ?n))" by code_simp
  then have n2: "\<forall>d. \<not> digits_follow (\<lambda>c. is_space c \<or> is_upper c \<or> is_lower c)
          (drop (11 + 11) ?n) d"
    using digits_follow_digits_at by blast
  note tn = phone_extraction [OF en]
  show ?thesis
  proof (intro conjI)
    show "find_first epic_at ?f = Some 7" by (rule ef)
    show "phone_follows (drop (7 + 11) ?f) ''555-867-5309''" by (rule pf)
    show "phoneNumber (parseDischargeRow ?f) = Some ''555-867-5309''"
      by (rule tf [THEN conjunct1, rule_format, OF pf])
    then show "phone_shape ''555-867-5309''"
      by (rule tf [THEN conjunct2, THEN conjunct2, THEN conjunct2, THEN conjunct2,
            THEN conjunct2, rule_format])
    show "find_first epic_at ?l = Some 11" by (rule el)
    show "digits_follow (\<lambda>c. is_space c \<or> is_upper c) (drop (11 + 11) ?l) ''2025551234''"
      by (rule dl)
    show "phoneNumber (parseDischargeRow ?l) = Some ''202-555-1234''"
      using tl [THEN conjunct1] unfolding dd .
    show "filter is_digit ''202-555-1234'' = ''2025551234''"
      using tl [THEN conjunct2, THEN conjunct2] unfolding dd .
    show "find_first epic_at ?m = Some 10" by (rule em)
    show "marker_follows (drop (10 + 11) ?m)" by (rule mm)
    show "phoneNumber (parseDischargeRow ?m) = None"
      by (rule tm [THEN conjunct2, THEN conjunct2, THEN conjunct2, THEN conjunct1,
            rule_format, OF mm])
    show "find_first epic_at ?n = Some 11" by (rule en)
    show "\<forall>p. \<not> phone_follows (drop (11 + 11) ?n) p" by (rule n1)
    show "\<forall>d. \<not> digits_follow (\<lambda>c. is_space c \<or> is_upper c \<or> is_lower c)
          (drop (11 + 11) ?n) d" by (rule n2)
    show "phoneNumber (parseDischargeRow ?n) = None"
      by (rule tn [THEN conjunct2, THEN conjunct2, THEN conjunct1, THEN mp,
            OF conjI [OF n1 n2]])
  qed
qed

text \<open>
  A formatted phone number after a blank is taken, though neither it nor ten digits stand
  at the very start of the text after the identifier.
\<close>

theorem phone_extraction_counterexample:
  "find_first epic_at ''Doe, J EP123456789 555-867-5309 Ray, Al MD'' = Some 7 \<and>
   drop (7 + 11) ''Doe, J EP123456789 555-867-5309 Ray, Al MD'' = '' 555-867-5309 Ray, Al MD'' \<and>
   \<not> phone_at (drop (7 + 11) ''Doe, J EP123456789 555-867-5309 Ray, Al MD'') \<and>
   \<not> digits_at 10 (drop (7 + 11) ''Doe, J EP123456789 555-867-5309 Ray, Al MD'') \<and>
   map rawText (records (parseDischargeText ''Doe, J EP123456789 555-867-5309 Ray, Al MD'')) =
     [''Doe, J EP123456789 555-867-5309 Ray, Al MD''] \<and>
   phoneNumber (parseDischargeRow ''Doe, J EP123456789 555-867-5309 Ray, Al MD'') =
     Some ''555-867-5309''"
  by code_simp

section \<open>The date anchor\<close>
























section \<open>The middle-segment splitter\<close>

text \<open>
  C7. The sorted vocabulary has the entries of the vocabulary, the longer first. For a
  trimmed span: the first entry of the sorted vocabulary that occurs in the span is the
  payer, and the text before its leftmost occurrence, trimmed, is the provider (absent
  when empty); when no entry occurs and the span has a credential token as a whole word,
  the span is the provider and the payer is Unknown; otherwise the span is the payer, or
  Unknown when the span is empty.
\<close>

theorem splitPcpAndInsurance_spec:
  assumes "trim t = t"
  shows "sorted_wrt (\<lambda>p q. length q \<le> length p) sorted_patterns \<and>
    mset sorted_patterns = mset INSURANCE_PATTERNS \<and>
    (\<forall>ps p qs. sorted_patterns = ps @ p # qs \<and> (\<forall>q\<in>set ps. \<not> occurs q t) \<and> occurs p t \<longrightarrow>
       (\<exists>a b. t = a @ p @ b \<and> (\<forall>a' b'. t = a' @ p @ b' \<longrightarrow> length a \<le> length a') \<and>
          splitPcpAndInsurance t = (if trim a = [] then None else Some (trim a), p))) \<and>
    ((\<forall>p\<in>set INSURANCE_PATTERNS. \<not> occurs p t) \<and> whole_word_credential t \<longrightarrow>
       splitPcpAndInsurance t = (Some t, ''Unknown'')) \<and>
    ((\<forall>p\<in>set INSURANCE_PATTERNS. \<not> occurs p t) \<and> \<not> whole_word_credential t \<longrightarrow>
       splitPcpAndInsurance t = (None, if t = [] then ''Unknown'' else t))"
proof (intro conjI allI impI)
  show "sorted_wrt (\<lambda>p q. length q \<le> length p) sorted_patterns"
    by (rule sorted_patterns_descending)
  show "mset sorted_patterns = mset INSURANCE_PATTERNS"
    by (simp add: sorted_patterns_def)
next
  fix ps p qs
  assume "sorted_patterns = ps @ p # qs \<and> (\<forall>q\<in>set ps. \<not> occurs q t) \<and> occurs p t"
  then show "\<exists>a b. t = a @ p @ b \<and> (\<forall>a' b'. t = a' @ p @ b' \<longrightarrow> length a \<le> length a') \<and>
          splitPcpAndInsurance t = (if trim a = [] then None else Some (trim a), p)"
    by (elim conjE) (rule split_pattern)
next
  assume "(\<forall>p\<in>set INSURANCE_PATTERNS. \<not> occurs p t) \<and> whole_word_credential t"
  then show "splitPcpAndInsurance t = (Some t, ''Unknown'')"
    using split_no_pattern [of t] assms by simp
next
  assume "(\<forall>p\<in>set INSURANCE_PATTERNS. \<not> occurs p t) \<and> \<not> whole_word_credential t"
  then show "splitPcpAndInsurance t = (None, if t = [] then ''Unknown'' else t)"
    using split_no_pattern [of t] assms by simp
qed

theorem splitPcpAndInsurance_spec_witness:
  "trim ''Wilson, Amy MDBCBS'' = ''Wilson, Amy MDBCBS'' \<and>
   (\<exists>a b. ''Wilson, Amy MDBCBS'' = a @ ''BCBS'' @ b \<and>
      splitPcpAndInsurance ''Wilson, Amy MDBCBS'' =
        (if trim a = [] then None else Some (trim a), ''BCBS'')) \<and>
   splitPcpAndInsurance ''Wilson, Amy MDBCBS'' = (Some ''Wilson, Amy MD'', ''BCBS'') \<and>
   whole_word_credential ''Grey, Meredith md'' \<and>
   splitPcpAndInsurance ''Grey, Meredith md'' = (Some ''Grey, Meredith md'', ''Unknown'') \<and>
   \<not> whole_word_credential ''SomePlace'' \<and>
   splitPcpAndInsurance ''SomePlace'' = (None, ''SomePlace'')"
proof -
  let ?t1 = "''Wilson, Amy MDBCBS''" and ?t2 = "''Grey, Meredith md''" and ?t3 = "''SomePlace''"
  let ?ps = "[''UnitedHealthcare'', ''Humana Health'', ''Aetna Health'', ''Blue Cross'',
      ''Medicare'', ''Medicaid'', ''Self Pay'', ''Self-Pay'', ''Tricare'',
      ''Humana'', ''United'', ''Kaiser'', ''Aetna'', ''Cigna'']"
  have tr: "trim ?t1 = ?t1" "trim ?t2 = ?t2" "trim ?t3 = ?t3" by code_simp+
  have sp: "sorted_patterns = ?ps @ ''BCBS'' # []" by (simp add: sorted_patterns_value)
  have "\<forall>q\<in>set ?ps. indexOf ?t1 q < 0" by code_simp
  then have n1: "\<forall>q\<in>set ?ps. \<not> occurs q ?t1" by (rule not_occurs_all)
  have "\<not> indexOf ?t1 ''BCBS'' < 0" by code_simp
  then have o1: "occurs ''BCBS'' ?t1" by (simp only: indexOf_negative simp_thms)
  have "\<forall>p\<in>set INSURANCE_PATTERNS. indexOf ?t2 p < 0" by code_simp
  then have n2: "\<forall>p\<in>set INSURANCE_PATTERNS. \<not> occurs p ?t2" by (rule not_occurs_all)
  have "\<forall>p\<in>set INSURANCE_PATTERNS. indexOf ?t3 p < 0" by code_simp
  then have n3: "\<forall>p\<in>set INSURANCE_PATTERNS. \<not> occurs p ?t3" by (rule not_occurs_all)
  have "has_credential ?t2" by code_simp
  then have c2: "whole_word_credential ?t2" by (simp only: has_credential_iff)
  have "\<not> has_credential ?t3" by code_simp
  then have c3: "\<not> whole_word_credential ?t3" by (simp only: has_credential_iff simp_thms)
  have v1: "splitPcpAndInsurance ?t1 = (Some ''Wilson, Amy MD'', ''BCBS'')" by code_simp
  note s1 = splitPcpAndInsurance_spec [OF tr(1), THEN conjunct2, THEN conjunct2, THEN conjunct1,
      rule_format, OF conjI [OF sp conjI [OF n1 o1]]]
  from s1 have e1: "\<exists>a b. ?t1 = a @ ''BCBS'' @ b \<and>
      splitPcpAndInsurance ?t1 = (if trim a = [] then None else Some (trim a), ''BCBS'')"
    by (elim exE conjE) (intro exI conjI, assumption+)
  note s2 = splitPcpAndInsurance_spec [OF tr(2), THEN conjunct2, THEN conjunct2, THEN conjunct2,
      THEN conjunct1, rule_format, OF conjI [OF n2 c2]]
  note s3 = splitPcpAndInsurance_spec [OF tr(3), THEN conjunct2, THEN conjunct2, THEN conjunct2,
      THEN conjunct2, rule_format, OF conjI [OF n3 c3]]
  from s3 have e3: "splitPcpAndInsurance ?t3 = (None, ?t3)" by simp
  show ?thesis by (intro conjI tr(1) e1 v1 c2 s2 c3 e3)
qed

section \<open>The name normalizer, applied twice\<close>

lemma credential_tokens_upper:
  "tok \<in> set [''MD'', ''DO'', ''PA'', ''NP'', ''PA-C'', ''RN'', ''BSN''] \<Longrightarrow>
     toUpperCase tok = tok \<and> tok \<noteq> [] \<and> \<not> is_space (last tok)"
  by (auto simp: toUpperCase_def toUpperChar_def is_space_def)

lemma first_credential_Some:
  "first_credential toks g r = Some (a, b, c) \<Longrightarrow>
     a = g \<and> (\<exists>tok\<in>set toks. toUpperCase b = toUpperCase tok)"
proof (induction toks)
  case Nil
  then show ?case by simp
next
  case (Cons tok toks)
  then show ?case
    by (auto simp: startsWith_ci_def split: if_splits option.splits)
qed

lemma wrongOrderMatch_Some:
  assumes "wrongOrderMatch t = Some (g1, g2, g3)"
  shows "g1 \<noteq> [] \<and> hd g1 = hd t \<and>
         toUpperCase g2 \<in> set [''MD'', ''DO'', ''PA'', ''NP'', ''PA-C'', ''RN'', ''BSN'']"
proof -
  let ?g = "takeWhile (\<lambda>c. c \<noteq> CHR '','') t"
  let ?r = "dropWhile is_space (tl (dropWhile (\<lambda>c. c \<noteq> CHR '','') t))"
  from assms have g: "?g \<noteq> []"
    and f: "first_credential [''MD'', ''DO'', ''PA'', ''NP'', ''PA-C'', ''RN'', ''BSN''] ?g ?r
            = Some (g1, g2, g3)"
    by (auto simp: wrongOrderMatch_def Let_def split: if_splits)
  from first_credential_Some [OF f] obtain tok where
    t: "g1 = ?g" "tok \<in> set [''MD'', ''DO'', ''PA'', ''NP'', ''PA-C'', ''RN'', ''BSN'']"
       "toUpperCase g2 = toUpperCase tok"
    by blast
  from credential_tokens_upper [OF t(2)] t(3) have "toUpperCase g2 = tok" by simp
  with t(2) have u: "toUpperCase g2 \<in> set [''MD'', ''DO'', ''PA'', ''NP'', ''PA-C'', ''RN'', ''BSN'']"
    by simp
  have "t = ?g @ dropWhile (\<lambda>c. c \<noteq> CHR '','') t" by simp
  with g have "hd t = hd ?g" by (metis hd_append2)
  with g t(1) u show ?thesis by simp
qed

lemma normalizeProviderName_trimmed: "trim (normalizeProviderName s) = normalizeProviderName s"
proof (cases "s = []")
  case True
  then show ?thesis by (simp add: normalizeProviderName_def trim_Nil)
next
  case False
  show ?thesis
  proof (cases "wrongOrderMatch (trim s)")
    case None
    with False show ?thesis by (simp add: normalizeProviderName_def trim_idem)
  next
    case (Some m)
    obtain g1 g2 g3 where m: "m = (g1, g2, g3)" by (cases m) auto
    from wrongOrderMatch_Some [OF Some [unfolded m]] have
      g: "g1 \<noteq> []" "hd g1 = hd (trim s)"
      and u: "toUpperCase g2 \<in> set [''MD'', ''DO'', ''PA'', ''NP'', ''PA-C'', ''RN'', ''BSN'']"
      by simp_all
    from credential_tokens_upper [OF u] have
      c: "toUpperCase g2 \<noteq> []" "\<not> is_space (last (toUpperCase g2))" by simp_all
    have ne: "trim s \<noteq> []" using Some by (auto simp: wrongOrderMatch_def)
    let ?n = "g1 @ '', '' @ g3 @ '' '' @ toUpperCase g2"
    have n: "normalizeProviderName s = ?n"
      using False Some m by (simp add: normalizeProviderName_def)
    have "hd ?n = hd (trim s)" using g by simp
    with trim_ends(1) [OF ne] have h: "\<not> is_space (hd ?n)" by simp
    have "last ?n = last (toUpperCase g2)" using c(1) by simp
    with c(2) have l: "\<not> is_space (last ?n)" by simp
    have "trim ?n = ?n" using h l g(1) by (intro trim_id) simp_all
    with n show ?thesis by simp
  qed
qed

lemma space_upper: "is_space c \<Longrightarrow> toUpperChar c = c"
  by (auto simp: is_space_def toUpperChar_def)

lemma name_credential_chars:
  "tok \<in> set [''MD'', ''DO'', ''PA'', ''NP'', ''PA-C'', ''RN'', ''BSN''] \<Longrightarrow>
     tok \<noteq> [] \<and> toUpperCase tok = tok \<and>
     (\<forall>c\<in>set tok. \<not> is_space c \<and> \<not> is_line_terminator c)"
  by (auto simp: is_space_def is_line_terminator_def toUpperCase_def toUpperChar_def)

lemma upper_token_no_space:
  assumes "toUpperCase w = tok"
    and "tok \<in> set [''MD'', ''DO'', ''PA'', ''NP'', ''PA-C'', ''RN'', ''BSN'']"
  shows "\<forall>c\<in>set w. \<not> is_space c"
proof
  fix c
  assume c: "c \<in> set w"
  show "\<not> is_space c"
  proof
    assume s: "is_space c"
    then have "toUpperChar c = c" by (rule space_upper)
    moreover from c have "toUpperChar c \<in> set (toUpperCase w)" by (simp add: toUpperCase_def)
    ultimately have "c \<in> set tok" using assms(1) by simp
    with name_credential_chars [OF assms(2)] s show False by blast
  qed
qed

lemma dropWhile_hd_neq: "y \<noteq> [] \<Longrightarrow> P (hd y) \<Longrightarrow> dropWhile P y \<noteq> y"
proof (cases y)
  case Nil
  then show "y \<noteq> [] \<Longrightarrow> dropWhile P y \<noteq> y" by simp
next
  case (Cons a ys)
  assume "P (hd y)"
  with Cons have "dropWhile P y = dropWhile P ys" by simp
  moreover have "length (dropWhile P ys) \<le> length ys" by (rule length_dropWhile_le)
  ultimately have "length (dropWhile P y) < length y" using Cons by simp
  then show "dropWhile P y \<noteq> y" by auto
qed

lemma match_ws_rest_SomeD: "match_ws_rest y \<noteq> None \<Longrightarrow> y \<noteq> [] \<and> is_space (hd y)"
  by (cases y) (auto simp: match_ws_rest_def Let_def split: if_splits)

lemma match_ws_rest_rest:
  assumes "y \<noteq> []" "is_space (hd y)" "dropWhile is_space y \<noteq> []"
    and "\<forall>c\<in>set (dropWhile is_space y). \<not> is_line_terminator c"
  shows "match_ws_rest y = Some (dropWhile is_space y)"
proof -
  from assms(1,2) have a: "dropWhile is_space y \<noteq> y" by (rule dropWhile_hd_neq)
  from assms(4) have b: "\<not> list_ex is_line_terminator (dropWhile is_space y)"
    unfolding list_ex_iff by blast
  from a b assms(3) show ?thesis unfolding match_ws_rest_def Let_def by simp
qed

lemma match_ws_rest_cases:
  assumes "match_ws_rest y = Some g"
  shows "(g = dropWhile is_space y \<and> g \<noteq> [] \<and> (\<forall>c\<in>set g. \<not> is_line_terminator c)) \<or>
         (y \<noteq> [] \<and> list_all is_space y)"
proof (cases "dropWhile is_space y = []")
  case True
  with assms have "y \<noteq> []" by (auto simp: match_ws_rest_def Let_def split: if_splits)
  moreover from True have "list_all is_space y"
    by (simp add: list_all_iff)
  ultimately show ?thesis by simp
next
  case False
  with assms show ?thesis
    by (auto simp: match_ws_rest_def Let_def list_ex_iff split: if_splits)
qed

lemma first_credential_step:
  "first_credential (t # toks) g1 r =
     (if startsWith_ci r t \<and> match_ws_rest (drop (length t) r) \<noteq> None
      then Some (g1, take (length t) r, the (match_ws_rest (drop (length t) r)))
      else first_credential toks g1 r)"
  by (cases "match_ws_rest (drop (length t) r)") simp_all

lemma first_credential_pick:
  assumes "tok \<in> set toks" "startsWith_ci r tok"
    and "match_ws_rest (drop (length tok) r) = Some g3"
    and "\<forall>t\<in>set toks. startsWith_ci r t \<and> match_ws_rest (drop (length t) r) \<noteq> None \<longrightarrow>
           length t = length tok"
  shows "first_credential toks g1 r = Some (g1, take (length tok) r, g3)"
  using assms(1,4)
proof (induction toks)
  case Nil
  then show ?case by simp
next
  case (Cons t toks)
  show ?case
  proof (cases "startsWith_ci r t \<and> match_ws_rest (drop (length t) r) \<noteq> None")
    case True
    with Cons.prems(2) have l: "length t = length tok" by simp
    have "first_credential (t # toks) g1 r =
          Some (g1, take (length t) r, the (match_ws_rest (drop (length t) r)))"
      using True by (simp add: first_credential_step del: first_credential.simps)
    also have "\<dots> = Some (g1, take (length tok) r, g3)"
      unfolding l assms(3) by simp
    finally show ?thesis .
  next
    case False
    with assms(2,3) have "t \<noteq> tok" by auto
    with Cons.prems(1) have m: "tok \<in> set toks" by simp
    from Cons.prems(2) have "\<forall>t\<in>set toks. startsWith_ci r t \<and>
        match_ws_rest (drop (length t) r) \<noteq> None \<longrightarrow> length t = length tok" by simp
    with m have "first_credential toks g1 r = Some (g1, take (length tok) r, g3)"
      by (rule Cons.IH)
    with False show ?thesis
      by (auto simp add: first_credential_step simp del: first_credential.simps)
  qed
qed

lemma first_credential_none:
  "\<forall>t\<in>set toks. \<not> (startsWith_ci r t \<and> match_ws_rest (drop (length t) r) \<noteq> None) \<Longrightarrow>
     first_credential toks g1 r = None"
proof (induction toks)
  case Nil
  then show ?case by simp
next
  case (Cons t toks)
  then have "first_credential toks g1 r = None" by simp
  moreover from Cons.prems have
    "\<not> (startsWith_ci r t \<and> match_ws_rest (drop (length t) r) \<noteq> None)" by simp
  ultimately show ?case by (simp add: first_credential_step del: first_credential.simps)
qed

lemma first_credential_SomeD:
  "first_credential toks g r = Some (a, b, c) \<Longrightarrow>
     a = g \<and> (\<exists>tok\<in>set toks. startsWith_ci r tok \<and> b = take (length tok) r \<and>
                 match_ws_rest (drop (length tok) r) = Some c)"
proof (induction toks)
  case Nil
  then show ?case by simp
next
  case (Cons t toks)
  show ?case
  proof (cases "startsWith_ci r t \<and> match_ws_rest (drop (length t) r) \<noteq> None")
    case True
    with Cons.prems have "Some (g, take (length t) r, the (match_ws_rest (drop (length t) r)))
        = Some (a, b, c)" by (simp add: first_credential_step del: first_credential.simps)
    with True show ?thesis by auto
  next
    case False
    with Cons.prems have "first_credential toks g r = Some (a, b, c)"
      by (auto simp add: first_credential_step simp del: first_credential.simps)
    from Cons.IH [OF this] show ?thesis by auto
  qed
qed


lemma second_credential_match:
  assumes g: "\<forall>c\<in>set g3. \<not> is_line_terminator c"
    and C: "C \<in> set [''MD'', ''DO'', ''PA'', ''NP'', ''PA-C'', ''RN'', ''BSN'']"
    and tok: "tok \<in> set [''MD'', ''DO'', ''PA'', ''NP'', ''PA-C'', ''RN'', ''BSN'']"
  shows "startsWith_ci (g3 @ '' '' @ C) tok \<and>
         match_ws_rest (drop (length tok) (g3 @ '' '' @ C)) \<noteq> None \<longleftrightarrow>
         toUpperCase (first_word g3) = tok"
    and "toUpperCase (first_word g3) = tok \<Longrightarrow>
         take (length tok) (g3 @ '' '' @ C) = first_word g3 \<and>
         match_ws_rest (drop (length tok) (g3 @ '' '' @ C)) =
           Some (dropWhile is_space (drop (length (first_word g3)) g3 @ '' '' @ C))"
proof -
  let ?r = "g3 @ '' '' @ C"
  let ?k = "length tok"
  let ?w = "first_word g3"
  from name_credential_chars [OF tok] have tu: "toUpperCase tok = tok" by blast
  from name_credential_chars [OF C] have Cn: "C \<noteq> []"
    and Cs: "\<forall>c\<in>set C. \<not> is_space c \<and> \<not> is_line_terminator c" by blast+
  have bk: "startsWith_ci ?r tok \<and> take ?k ?r = ?w \<and>
      match_ws_rest (drop ?k ?r) = Some (dropWhile is_space (drop (length ?w) g3 @ '' '' @ C))"
    if u: "toUpperCase ?w = tok"
  proof -
    from u have "length (toUpperCase ?w) = ?k" by simp
    then have k: "length ?w = ?k" by (simp only: toUpperCase_length)
    have le: "length ?w \<le> length g3" unfolding first_word_def by (rule length_takeWhile_le)
    have w: "?w = take ?k g3"
      unfolding k [symmetric] first_word_def by (rule takeWhile_eq_take)
    have d: "drop ?k g3 = dropWhile (\<lambda>c. \<not> is_space c) g3"
      unfolding k [symmetric] first_word_def by (rule dropWhile_eq_drop [symmetric])
    from le k have tk: "take ?k ?r = ?w" using w by simp
    from le k have dr: "drop ?k ?r = drop ?k g3 @ '' '' @ C" by simp
    have sw: "startsWith_ci ?r tok"
      unfolding startsWith_ci_def tk u tu using le k by simp
    let ?y = "drop ?k g3 @ '' '' @ C"
    have y1: "?y \<noteq> []" by simp
    have y2: "is_space (hd ?y)"
    proof (cases "drop ?k g3 = []")
      case True
      then show ?thesis by (simp add: is_space_blank)
    next
      case False
      then have "dropWhile (\<lambda>c. \<not> is_space c) g3 \<noteq> []" unfolding d .
      then have "\<not> \<not> is_space (hd (dropWhile (\<lambda>c. \<not> is_space c) g3))"
        using hd_dropWhile [of "\<lambda>c. \<not> is_space c" g3] by blast
      then have "is_space (hd (drop ?k g3))" unfolding d by simp
      with False show ?thesis by simp
    qed
    have y3: "dropWhile is_space ?y \<noteq> []"
    proof
      assume "dropWhile is_space ?y = []"
      then have "\<forall>c\<in>set ?y. is_space c" by (simp only: dropWhile_eq_Nil_conv)
      moreover from Cn have "hd C \<in> set ?y" by simp
      ultimately have "is_space (hd C)" by blast
      with Cs Cn show False by (metis hd_in_set)
    qed
    have sub: "set (drop ?k g3) \<subseteq> set g3" by (rule set_drop_subset)
    have y4: "\<forall>c\<in>set ?y. \<not> is_line_terminator c"
    proof
      fix c
      assume "c \<in> set ?y"
      then have "c \<in> set (drop ?k g3) \<or> c = CHR '' '' \<or> c \<in> set C" by auto
      then consider "c \<in> set g3" | "c = CHR '' ''" | "c \<in> set C" using sub by blast
      then show "\<not> is_line_terminator c"
      proof cases
        case 1
        with g show ?thesis by blast
      next
        case 2
        then show ?thesis by (simp add: is_line_terminator_def)
      next
        case 3
        with Cs show ?thesis by blast
      qed
    qed
    from y4 have y5: "\<forall>c\<in>set (dropWhile is_space ?y). \<not> is_line_terminator c"
      by (meson set_dropWhileD)
    from y1 y2 y3 y5 have "match_ws_rest ?y = Some (dropWhile is_space ?y)"
      by (rule match_ws_rest_rest)
    then have "match_ws_rest (drop ?k ?r) =
        Some (dropWhile is_space (drop (length ?w) g3 @ '' '' @ C))"
      unfolding dr k .
    with sw tk show ?thesis by simp
  qed
  show "toUpperCase ?w = tok \<Longrightarrow>
         take ?k ?r = ?w \<and>
         match_ws_rest (drop ?k ?r) =
           Some (dropWhile is_space (drop (length ?w) g3 @ '' '' @ C))"
    using bk by simp
  show "startsWith_ci ?r tok \<and> match_ws_rest (drop ?k ?r) \<noteq> None \<longleftrightarrow> toUpperCase ?w = tok"
  proof
    assume u: "toUpperCase ?w = tok"
    from bk [OF u] show "startsWith_ci ?r tok \<and> match_ws_rest (drop ?k ?r) \<noteq> None" by simp
  next
    assume ab: "startsWith_ci ?r tok \<and> match_ws_rest (drop ?k ?r) \<noteq> None"
    then have a1: "?k \<le> length ?r" and a2: "toUpperCase (take ?k ?r) = tok"
      unfolding startsWith_ci_def tu by simp_all
    from upper_token_no_space [OF a2 tok] have ns: "\<forall>c\<in>set (take ?k ?r). \<not> is_space c" .
    from ab have "match_ws_rest (drop ?k ?r) \<noteq> None" ..
    then have b: "drop ?k ?r \<noteq> [] \<and> is_space (hd (drop ?k ?r))" by (rule match_ws_rest_SomeD)
    have le: "?k \<le> length g3"
    proof (rule ccontr)
      assume "\<not> ?k \<le> length g3"
      then have lt: "length g3 < ?k" by simp
      then have "take ?k ?r ! length g3 = ?r ! length g3" by (rule nth_take)
      also have "\<dots> = CHR '' ''" by (simp add: nth_append)
      finally have "take ?k ?r ! length g3 = CHR '' ''" .
      moreover from lt a1 have "length g3 < length (take ?k ?r)" by simp
      ultimately have "CHR '' '' \<in> set (take ?k ?r)" by (metis nth_mem)
      with ns is_space_blank show False by blast
    qed
    then have tk: "take ?k ?r = take ?k g3" and dr: "drop ?k ?r = drop ?k g3 @ '' '' @ C"
      by simp_all
    have tl: "takeWhile (\<lambda>c. \<not> is_space c) (drop ?k g3) = []"
    proof (cases "drop ?k g3")
      case Nil
      then show ?thesis by simp
    next
      case (Cons a as)
      with b dr have "is_space a" by simp
      with Cons show ?thesis by simp
    qed
    have "g3 = take ?k g3 @ drop ?k g3" by simp
    then have "?w = takeWhile (\<lambda>c. \<not> is_space c) (take ?k g3 @ drop ?k g3)"
      unfolding first_word_def by (rule arg_cong)
    also have "\<dots> = take ?k g3 @ takeWhile (\<lambda>c. \<not> is_space c) (drop ?k g3)"
      using ns unfolding tk by (intro takeWhile_append2) blast
    finally have "?w = take ?k g3" unfolding tl by simp
    with a2 tk show "toUpperCase ?w = tok" by simp
  qed
qed

lemma wrongOrderMatch_groups:
  assumes m: "wrongOrderMatch t = Some (g1, g2, g3)" and t: "trim t = t"
  shows "\<exists>ws ws'. t = g1 @ '','' @ ws @ g2 @ ws' @ g3 \<and> ws \<noteq> [] \<and> list_all is_space ws \<and>
            ws' \<noteq> [] \<and> list_all is_space ws'"
    and "g1 \<noteq> []" and "CHR '','' \<notin> set g1"
    and "toUpperCase g2 \<in> set [''MD'', ''DO'', ''PA'', ''NP'', ''PA-C'', ''RN'', ''BSN'']"
    and "g3 \<noteq> []" and "\<not> is_space (hd g3)" and "\<not> is_space (last g3)"
    and "\<forall>c\<in>set g3. \<not> is_line_terminator c"
proof -
  let ?toks = "[''MD'', ''DO'', ''PA'', ''NP'', ''PA-C'', ''RN'', ''BSN'']"
  define g where "g = takeWhile (\<lambda>c. c \<noteq> CHR '','') t"
  define r where "r = dropWhile (\<lambda>c. c \<noteq> CHR '','') t"
  define r1 where "r1 = tl r"
  define r2 where "r2 = dropWhile is_space r1"
  from m have gn: "g \<noteq> []" and rn: "r \<noteq> []" and r2: "r2 \<noteq> r1"
    and f: "first_credential ?toks g r2 = Some (g1, g2, g3)"
    unfolding g_def r_def r1_def r2_def
    by (auto simp: wrongOrderMatch_def Let_def split: if_splits)
  from first_credential_SomeD [OF f] obtain tok where
    g1: "g1 = g" and tok: "tok \<in> set ?toks" and sw: "startsWith_ci r2 tok"
    and g2: "g2 = take (length tok) r2"
    and mw0: "match_ws_rest (drop (length tok) r2) = Some g3"
    by blast
  define x where "x = drop (length tok) r2"
  from mw0 have mw: "match_ws_rest x = Some g3" unfolding x_def .
  from gn g1 show "g1 \<noteq> []" by simp
  show "CHR '','' \<notin> set g1" unfolding g1 g_def by (auto dest: set_takeWhileD)
  from sw have "toUpperCase g2 = toUpperCase tok" unfolding g2 startsWith_ci_def by simp
  with name_credential_chars [OF tok] tok show "toUpperCase g2 \<in> set ?toks" by simp
  from rn have "\<not> hd r \<noteq> CHR '',''" unfolding r_def by (rule hd_dropWhile)
  with rn have r: "r = CHR '','' # r1" unfolding r1_def by (cases r) simp_all
  have "t = g @ r" unfolding g_def r_def by simp
  then have t1: "t = g1 @ '','' @ r1" using r g1 by simp
  define ws where "ws = takeWhile is_space r1"
  have r1: "r1 = ws @ r2" unfolding ws_def r2_def by simp
  have wn: "ws \<noteq> []"
  proof
    assume "ws = []"
    with r1 have "r1 = r2" by simp
    with r2 show False by simp
  qed
  have ws: "list_all is_space ws"
    unfolding ws_def by (simp add: list_all_iff) (meson set_takeWhileD)
  have r2x: "r2 = g2 @ x" unfolding g2 x_def by simp
  have t2: "t = g1 @ '','' @ ws @ g2 @ x" unfolding t1 r1 r2x by simp
  from mw have "match_ws_rest x \<noteq> None" by simp
  then have xs: "x \<noteq> [] \<and> is_space (hd x)" by (rule match_ws_rest_SomeD)
  from m have tn: "t \<noteq> []" by (auto simp: wrongOrderMatch_def)
  with t have "trim t \<noteq> []" by simp
  from trim_ends(2) [OF this] t have lt: "\<not> is_space (last t)" by simp
  from xs have lx: "last t = last x" unfolding t2 by simp
  from match_ws_rest_cases [OF mw] have
    c: "g3 = dropWhile is_space x \<and> g3 \<noteq> [] \<and> (\<forall>c\<in>set g3. \<not> is_line_terminator c)"
  proof
    assume "x \<noteq> [] \<and> list_all is_space x"
    then have "is_space (last x)" by (simp add: list_all_iff)
    with lt lx show ?thesis by simp
  qed
  then show "g3 \<noteq> []" and "\<forall>c\<in>set g3. \<not> is_line_terminator c" by blast+
  from c have gd: "g3 = dropWhile is_space x" by (rule conjunct1)
  from c have "g3 \<noteq> []" by blast
  then have gne: "dropWhile is_space x \<noteq> []" unfolding gd .
  from gne have "\<not> is_space (hd (dropWhile is_space x))" by (rule hd_dropWhile)
  then show "\<not> is_space (hd g3)" unfolding gd .
  define ws' where "ws' = takeWhile is_space x"
  have x: "x = ws' @ g3" unfolding gd ws'_def by simp
  from c have "last x = last g3" unfolding x by simp
  with lt lx show "\<not> is_space (last g3)" by simp
  have wn': "ws' \<noteq> []"
    unfolding ws'_def using xs by (cases x) simp_all
  have ws': "list_all is_space ws'"
    unfolding ws'_def by (simp add: list_all_iff) (meson set_takeWhileD)
  have "t = g1 @ '','' @ ws @ g2 @ ws' @ g3" unfolding t2 x ..
  with wn ws wn' ws' show "\<exists>ws ws'. t = g1 @ '','' @ ws @ g2 @ ws' @ g3 \<and> ws \<noteq> [] \<and>
      list_all is_space ws \<and> ws' \<noteq> [] \<and> list_all is_space ws'"
    by blast
qed

lemma wrongOrderMatch_rewritten:
  assumes "g1 \<noteq> []" "CHR '','' \<notin> set g1" "g3 \<noteq> []" "\<not> is_space (hd g3)"
  shows "wrongOrderMatch (g1 @ '', '' @ g3 @ '' '' @ C) =
         first_credential [''MD'', ''DO'', ''PA'', ''NP'', ''PA-C'', ''RN'', ''BSN''] g1
           (g3 @ '' '' @ C)"
proof -
  let ?n = "g1 @ '', '' @ g3 @ '' '' @ C"
  let ?rest = "g3 @ '' '' @ C"
  have n: "?n = g1 @ CHR '','' # CHR '' '' # ?rest" by simp
  from assms(2) have a: "\<And>x. x \<in> set g1 \<Longrightarrow> x \<noteq> CHR '',''" by auto
  have tw: "takeWhile (\<lambda>c. c \<noteq> CHR '','') ?n = g1"
    unfolding n using a by simp
  have dw: "dropWhile (\<lambda>c. c \<noteq> CHR '','') ?n = CHR '','' # CHR '' '' # ?rest"
    unfolding n using a by simp
  from assms(3,4) have d: "dropWhile is_space ?rest = ?rest" by (cases g3) simp_all
  have ds: "dropWhile is_space (CHR '' '' # ?rest) = ?rest"
    using d by (simp add: is_space_blank)
  have ne: "?rest \<noteq> CHR '' '' # ?rest" by simp
  show ?thesis
    unfolding wrongOrderMatch_def Let_def tw dw list.sel ds using assms(1) ne by simp
qed

lemma last_word_eq:
  assumes "X @ CHR '' '' # C = Y @ CHR '' '' # D" "CHR '' '' \<notin> set C" "CHR '' '' \<notin> set D"
  shows "C = D"
proof -
  have a: "takeWhile (\<lambda>c. c \<noteq> CHR '' '') (rev (Z @ CHR '' '' # E)) = rev E"
    if "CHR '' '' \<notin> set E" for Z E
  proof -
    have r: "rev (Z @ CHR '' '' # E) = rev E @ CHR '' '' # rev Z" by simp
    have "takeWhile (\<lambda>c. c \<noteq> CHR '' '') (rev E @ CHR '' '' # rev Z) =
          rev E @ takeWhile (\<lambda>c. c \<noteq> CHR '' '') (CHR '' '' # rev Z)"
      using that by (intro takeWhile_append2) auto
    then show ?thesis unfolding r by simp
  qed
  from assms(1) have "takeWhile (\<lambda>c. c \<noteq> CHR '' '') (rev (X @ CHR '' '' # C)) =
      takeWhile (\<lambda>c. c \<noteq> CHR '' '') (rev (Y @ CHR '' '' # D))" by (rule arg_cong)
  then have "rev C = rev D" unfolding a [OF assms(2)] a [OF assms(3)] .
  then show ?thesis by simp
qed


lemma wrongOrderMatch_of_groups:
  assumes t: "t = g1 @ '','' @ ws @ g2 @ ws' @ g3"
    and g1: "g1 \<noteq> []" "CHR '','' \<notin> set g1"
    and ws: "ws \<noteq> []" "list_all is_space ws"
    and g2: "toUpperCase g2 \<in> set [''MD'', ''DO'', ''PA'', ''NP'', ''PA-C'', ''RN'', ''BSN'']"
    and ws': "ws' \<noteq> []" "list_all is_space ws'"
    and g3: "g3 \<noteq> []" "\<not> is_space (hd g3)" "\<forall>c\<in>set g3. \<not> is_line_terminator c"
  shows "wrongOrderMatch t = Some (g1, g2, g3)"
proof -
  let ?toks = "[''MD'', ''DO'', ''PA'', ''NP'', ''PA-C'', ''RN'', ''BSN'']"
  let ?tok = "toUpperCase g2"
  let ?r2 = "g2 @ ws' @ g3"
  let ?r1 = "ws @ ?r2"
  have n: "t = g1 @ CHR '','' # ?r1" unfolding t by simp
  from g1(2) have a: "\<And>x. x \<in> set g1 \<Longrightarrow> x \<noteq> CHR '',''" by auto
  have tw: "takeWhile (\<lambda>c. c \<noteq> CHR '','') t = g1"
    unfolding n using a by simp
  have dw: "dropWhile (\<lambda>c. c \<noteq> CHR '','') t = CHR '','' # ?r1"
    unfolding n using a by simp
  have refl: "toUpperCase g2 = ?tok" ..
  from upper_token_no_space [OF refl g2] have g2s: "\<forall>c\<in>set g2. \<not> is_space c" .
  from name_credential_chars [OF g2] have "?tok \<noteq> []" and tu: "toUpperCase ?tok = ?tok"
    by blast+
  then have g2n: "g2 \<noteq> []" by (auto simp: toUpperCase_def)
  with g2s have h2: "\<not> is_space (hd g2)" by (metis hd_in_set)
  from g2n h2 have "?r2 \<noteq> []" "\<not> is_space (hd ?r2)" by simp_all
  with ws(2) have ds: "dropWhile is_space ?r1 = ?r2" by (intro dropWhile_spaces_append(1))
  from ws(1) have ne: "?r2 \<noteq> ?r1" by simp
  have k: "length ?tok = length g2" by (rule toUpperCase_length)
  have sw: "startsWith_ci ?r2 ?tok"
    unfolding startsWith_ci_def k tu by simp
  have dr: "drop (length ?tok) ?r2 = ws' @ g3" unfolding k by simp
  have dg: "dropWhile is_space (ws' @ g3) = g3"
    using ws'(2) g3(1,2) by (rule dropWhile_spaces_append(1))
  from ws' have hs: "is_space (hd (ws' @ g3))" by (cases ws') simp_all
  have mw: "match_ws_rest (drop (length ?tok) ?r2) = Some g3"
  proof -
    from ws'(1) have 1: "ws' @ g3 \<noteq> []" by simp
    from g3(1) have 2: "dropWhile is_space (ws' @ g3) \<noteq> []" unfolding dg .
    from g3(3) have 3: "\<forall>c\<in>set (dropWhile is_space (ws' @ g3)). \<not> is_line_terminator c"
      unfolding dg .
    from 1 hs 2 3 have "match_ws_rest (ws' @ g3) = Some (dropWhile is_space (ws' @ g3))"
      by (rule match_ws_rest_rest)
    then show ?thesis unfolding dr dg .
  qed
  have uniq: "\<forall>u\<in>set ?toks. startsWith_ci ?r2 u \<and> match_ws_rest (drop (length u) ?r2) \<noteq> None
      \<longrightarrow> length u = length ?tok"
  proof (intro ballI impI)
    fix u
    assume u: "u \<in> set ?toks"
      and ab: "startsWith_ci ?r2 u \<and> match_ws_rest (drop (length u) ?r2) \<noteq> None"
    from name_credential_chars [OF u] have uu: "toUpperCase u = u" by blast
    from ab have a1: "length u \<le> length ?r2" and a2: "toUpperCase (take (length u) ?r2) = u"
      unfolding startsWith_ci_def uu by simp_all
    from upper_token_no_space [OF a2 u] have
      ns: "\<forall>c\<in>set (take (length u) ?r2). \<not> is_space c" .
    from ab have "match_ws_rest (drop (length u) ?r2) \<noteq> None" ..
    then have b: "drop (length u) ?r2 \<noteq> [] \<and> is_space (hd (drop (length u) ?r2))"
      by (rule match_ws_rest_SomeD)
    have 1: "\<not> length g2 < length u"
    proof
      assume lt: "length g2 < length u"
      then have "take (length u) ?r2 ! length g2 = ?r2 ! length g2" by (rule nth_take)
      also have "\<dots> = hd ws'" using ws'(1) by (simp add: nth_append hd_conv_nth)
      finally have "take (length u) ?r2 ! length g2 = hd ws'" .
      moreover from lt a1 have "length g2 < length (take (length u) ?r2)" by simp
      ultimately have "hd ws' \<in> set (take (length u) ?r2)" by (metis nth_mem)
      moreover from ws' have "is_space (hd ws')" by (cases ws') simp_all
      ultimately show False using ns by blast
    qed
    have 2: "\<not> length u < length g2"
    proof
      assume lt: "length u < length g2"
      then have "drop (length u) ?r2 = drop (length u) g2 @ ws' @ g3" by simp
      moreover from lt have "drop (length u) g2 \<noteq> []" by simp
      ultimately have "hd (drop (length u) ?r2) = hd (drop (length u) g2)" by simp
      also have "\<dots> = g2 ! length u" using lt by (simp add: hd_drop_conv_nth)
      finally have "hd (drop (length u) ?r2) = g2 ! length u" .
      moreover from lt have "g2 ! length u \<in> set g2" by simp
      ultimately show False using b g2s by metis
    qed
    from 1 2 show "length u = length ?tok" unfolding k by simp
  qed
  from g2 sw mw uniq have
    "first_credential ?toks g1 ?r2 = Some (g1, take (length ?tok) ?r2, g3)"
    by (rule first_credential_pick)
  then have f: "first_credential ?toks g1 ?r2 = Some (g1, g2, g3)" unfolding k by simp
  show ?thesis
    unfolding wrongOrderMatch_def Let_def tw dw list.sel ds using g1(1) ne f by simp
qed

lemma wrongOrderMatch_iff:
  assumes "trim t = t"
  shows "wrongOrderMatch t = Some (g1, g2, g3) \<longleftrightarrow> wrong_order t g1 g2 g3"
proof
  assume m: "wrongOrderMatch t = Some (g1, g2, g3)"
  from wrongOrderMatch_groups [OF m assms] show "wrong_order t g1 g2 g3"
    unfolding wrong_order_def NAME_CREDENTIALS_def by blast
next
  assume "wrong_order t g1 g2 g3"
  then obtain ws ws' where "t = g1 @ '','' @ ws @ g2 @ ws' @ g3"
    "g1 \<noteq> []" "CHR '','' \<notin> set g1" "ws \<noteq> []" "list_all is_space ws"
    "toUpperCase g2 \<in> set [''MD'', ''DO'', ''PA'', ''NP'', ''PA-C'', ''RN'', ''BSN'']"
    "ws' \<noteq> []" "list_all is_space ws'"
    "g3 \<noteq> []" "\<not> is_space (hd g3)" "\<forall>c\<in>set g3. \<not> is_line_terminator c"
    unfolding wrong_order_def NAME_CREDENTIALS_def by blast
  then show "wrongOrderMatch t = Some (g1, g2, g3)" by (rule wrongOrderMatch_of_groups)
qed

lemma wrongOrderMatch_None_iff:
  assumes "trim t = t"
  shows "wrongOrderMatch t = None \<longleftrightarrow> (\<forall>g1 g2 g3. \<not> wrong_order t g1 g2 g3)"
proof -
  have "wrongOrderMatch t = None \<longleftrightarrow> (\<forall>g1 g2 g3. wrongOrderMatch t \<noteq> Some (g1, g2, g3))"
    by (cases "wrongOrderMatch t") auto
  then show ?thesis unfolding wrongOrderMatch_iff [OF assms] .
qed

lemma normalizeProviderName_pass:
  assumes "wrongOrderMatch (trim s) = None"
  shows "normalizeProviderName s = trim s"
proof (cases "s = []")
  case True
  then show ?thesis by (simp add: normalizeProviderName_def trim_Nil)
next
  case False
  with assms show ?thesis by (simp add: normalizeProviderName_def)
qed

lemma normalizeProviderName_again:
  assumes m: "wrongOrderMatch (trim s) = Some (g1, g2, g3)"
  shows "normalizeProviderName s = g1 @ '', '' @ g3 @ '' '' @ toUpperCase g2"
    and "toUpperCase (first_word g3) \<notin> set NAME_CREDENTIALS \<Longrightarrow>
         normalizeProviderName (normalizeProviderName s) = normalizeProviderName s"
    and "toUpperCase (first_word g3) \<in> set NAME_CREDENTIALS \<Longrightarrow>
         normalizeProviderName (normalizeProviderName s) =
           g1 @ '', '' @
           dropWhile is_space (drop (length (first_word g3)) g3 @ '' '' @ toUpperCase g2) @
           '' '' @ toUpperCase (first_word g3)"
proof -
  let ?toks = "[''MD'', ''DO'', ''PA'', ''NP'', ''PA-C'', ''RN'', ''BSN'']"
  let ?C = "toUpperCase g2"
  let ?w = "first_word g3"
  let ?r = "g3 @ '' '' @ ?C"
  let ?n = "g1 @ '', '' @ ?r"
  have ne: "trim s \<noteq> []" using m by (auto simp: wrongOrderMatch_def)
  then have sn: "s \<noteq> []" by (auto simp: trim_Nil)
  from sn m show n: "normalizeProviderName s = ?n" by (simp add: normalizeProviderName_def)
  note gr = wrongOrderMatch_groups [OF m trim_idem]
  have nn: "?n \<noteq> []" using gr(2) by simp
  have "trim (normalizeProviderName s) = normalizeProviderName s"
    by (rule normalizeProviderName_trimmed)
  then have tn: "trim ?n = ?n" unfolding n .
  have w: "wrongOrderMatch ?n = first_credential ?toks g1 ?r"
    using gr(2,3,5,6) by (rule wrongOrderMatch_rewritten)
  have N: "normalizeProviderName ?n =
      (case first_credential ?toks g1 ?r of
         Some (a, b, c) \<Rightarrow> a @ '', '' @ c @ '' '' @ toUpperCase b | None \<Rightarrow> ?n)"
    using nn unfolding normalizeProviderName_def [of ?n] Let_def tn w by simp
  {
    assume "toUpperCase ?w \<notin> set NAME_CREDENTIALS"
    then have nw: "toUpperCase ?w \<notin> set ?toks" unfolding NAME_CREDENTIALS_def .
    have "\<forall>t\<in>set ?toks. \<not> (startsWith_ci ?r t \<and>
        match_ws_rest (drop (length t) ?r) \<noteq> None)"
    proof
      fix t
      assume t: "t \<in> set ?toks"
      with nw have "toUpperCase ?w \<noteq> t" by blast
      then show "\<not> (startsWith_ci ?r t \<and> match_ws_rest (drop (length t) ?r) \<noteq> None)"
        unfolding second_credential_match(1) [OF gr(8) gr(4) t] .
    qed
    then have "first_credential ?toks g1 ?r = None" by (rule first_credential_none)
    then have "normalizeProviderName ?n = ?n" unfolding N by simp
    then show "normalizeProviderName (normalizeProviderName s) = normalizeProviderName s"
      unfolding n .
  }
  {
    assume "toUpperCase ?w \<in> set NAME_CREDENTIALS"
    then have iw: "toUpperCase ?w \<in> set ?toks" unfolding NAME_CREDENTIALS_def .
    let ?tok = "toUpperCase ?w"
    let ?G = "dropWhile is_space (drop (length ?w) g3 @ '' '' @ ?C)"
    have refl: "toUpperCase ?w = ?tok" ..
    from second_credential_match(2) [OF gr(8) gr(4) iw refl] have
      tk: "take (length ?tok) ?r = ?w" and mw: "match_ws_rest (drop (length ?tok) ?r) = Some ?G"
      by blast+
    from second_credential_match(1) [OF gr(8) gr(4) iw] refl have
      sw: "startsWith_ci ?r ?tok" by blast
    have uniq: "\<forall>t\<in>set ?toks. startsWith_ci ?r t \<and>
        match_ws_rest (drop (length t) ?r) \<noteq> None \<longrightarrow> length t = length ?tok"
    proof (intro ballI impI)
      fix t
      assume t: "t \<in> set ?toks"
        and "startsWith_ci ?r t \<and> match_ws_rest (drop (length t) ?r) \<noteq> None"
      then have "toUpperCase ?w = t"
        unfolding second_credential_match(1) [OF gr(8) gr(4) t] by blast
      then show "length t = length ?tok" by simp
    qed
    from iw sw mw uniq have
      "first_credential ?toks g1 ?r = Some (g1, take (length ?tok) ?r, ?G)"
      by (rule first_credential_pick)
    then have "first_credential ?toks g1 ?r = Some (g1, ?w, ?G)" unfolding tk .
    then have "normalizeProviderName ?n = g1 @ '', '' @ ?G @ '' '' @ toUpperCase ?w"
      unfolding N by simp
    then show "normalizeProviderName (normalizeProviderName s) =
        g1 @ '', '' @ ?G @ '' '' @ toUpperCase ?w"
      unfolding n .
  }
qed

lemma credential_no_blank:
  "tok \<in> set NAME_CREDENTIALS \<Longrightarrow> CHR '' '' \<notin> set tok"
  unfolding NAME_CREDENTIALS_def by auto

text \<open>
  C8, as the code has it. A name whose trimmed form is not in the wrong order is trimmed
  and nothing else, and normalizing it again changes nothing. A name whose trimmed form
  is in the wrong order, with the surname \<open>g1\<close>, the credential \<open>g2\<close> and the given
  names \<open>g3\<close>, becomes the surname, a comma and a blank, the given names, a blank, and
  the credential in capitals. Normalizing that again changes nothing when the first word
  of the given names is not itself a credential. When it is one, the second application
  moves it behind the first credential: the result is the surname, the given names
  without their first word, the first credential, and the second. The two results differ
  whenever the two credentials differ; they can be equal when the credentials are the
  same, as for \<^verbatim>\<open>Sloan, MD MD\<close>.
\<close>

theorem normalizeProviderName_twice:
  "((\<forall>g1 g2 g3. \<not> wrong_order (trim s) g1 g2 g3) \<longrightarrow>
      normalizeProviderName s = trim s \<and>
      normalizeProviderName (normalizeProviderName s) = normalizeProviderName s) \<and>
   (\<forall>g1 g2 g3. wrong_order (trim s) g1 g2 g3 \<longrightarrow>
      normalizeProviderName s = g1 @ '', '' @ g3 @ '' '' @ toUpperCase g2 \<and>
      (toUpperCase (first_word g3) \<notin> set NAME_CREDENTIALS \<longrightarrow>
         normalizeProviderName (normalizeProviderName s) = normalizeProviderName s) \<and>
      (toUpperCase (first_word g3) \<in> set NAME_CREDENTIALS \<longrightarrow>
         normalizeProviderName (normalizeProviderName s) =
           g1 @ '', '' @
           dropWhile is_space (drop (length (first_word g3)) g3 @ '' '' @ toUpperCase g2) @
           '' '' @ toUpperCase (first_word g3) \<and>
         (toUpperCase (first_word g3) \<noteq> toUpperCase g2 \<longrightarrow>
            normalizeProviderName (normalizeProviderName s) \<noteq> normalizeProviderName s)))"
proof (intro conjI allI impI)
  assume "\<forall>g1 g2 g3. \<not> wrong_order (trim s) g1 g2 g3"
  then have n: "wrongOrderMatch (trim s) = None"
    unfolding wrongOrderMatch_None_iff [OF trim_idem] .
  then show p: "normalizeProviderName s = trim s" by (rule normalizeProviderName_pass)
  from n have "wrongOrderMatch (trim (trim s)) = None" unfolding trim_idem .
  then have "normalizeProviderName (trim s) = trim (trim s)" by (rule normalizeProviderName_pass)
  then show "normalizeProviderName (normalizeProviderName s) = normalizeProviderName s"
    unfolding p trim_idem .
next
  fix g1 g2 g3
  assume "wrong_order (trim s) g1 g2 g3"
  then have m: "wrongOrderMatch (trim s) = Some (g1, g2, g3)"
    unfolding wrongOrderMatch_iff [OF trim_idem] .
  from normalizeProviderName_again(1) [OF m]
  show n: "normalizeProviderName s = g1 @ '', '' @ g3 @ '' '' @ toUpperCase g2" .
  {
    assume "toUpperCase (first_word g3) \<notin> set NAME_CREDENTIALS"
    with m show "normalizeProviderName (normalizeProviderName s) = normalizeProviderName s"
      by (rule normalizeProviderName_again(2))
  }
  {
    assume i: "toUpperCase (first_word g3) \<in> set NAME_CREDENTIALS"
    with m show nn: "normalizeProviderName (normalizeProviderName s) =
           g1 @ '', '' @
           dropWhile is_space (drop (length (first_word g3)) g3 @ '' '' @ toUpperCase g2) @
           '' '' @ toUpperCase (first_word g3)"
      by (rule normalizeProviderName_again(3))
    assume d: "toUpperCase (first_word g3) \<noteq> toUpperCase g2"
    from wrongOrderMatch_groups(4) [OF m trim_idem] have
      c: "toUpperCase g2 \<in> set NAME_CREDENTIALS" unfolding NAME_CREDENTIALS_def .
    show "normalizeProviderName (normalizeProviderName s) \<noteq> normalizeProviderName s"
    proof
      assume "normalizeProviderName (normalizeProviderName s) = normalizeProviderName s"
      with nn [symmetric] have "g1 @ '', '' @
           dropWhile is_space (drop (length (first_word g3)) g3 @ '' '' @ toUpperCase g2) @
           '' '' @ toUpperCase (first_word g3) = normalizeProviderName s"
        by (rule trans)
      then have "g1 @ '', '' @
           dropWhile is_space (drop (length (first_word g3)) g3 @ '' '' @ toUpperCase g2) @
           '' '' @ toUpperCase (first_word g3) = g1 @ '', '' @ g3 @ '' '' @ toUpperCase g2"
        using n by (rule trans)
      then have "(g1 @ '', '' @
           dropWhile is_space (drop (length (first_word g3)) g3 @ '' '' @ toUpperCase g2)) @
           CHR '' '' # toUpperCase (first_word g3) =
           (g1 @ '', '' @ g3) @ CHR '' '' # toUpperCase g2"
        by simp
      then have "toUpperCase (first_word g3) = toUpperCase g2"
        using credential_no_blank [OF i] credential_no_blank [OF c] by (rule last_word_eq)
      with d show False ..
    qed
  }
qed

theorem normalizeProviderName_twice_witness:
  "(\<forall>g1 g2 g3. \<not> wrong_order (trim ''Manning, Steward Wallace PA '') g1 g2 g3) \<and>
   normalizeProviderName ''Manning, Steward Wallace PA '' = ''Manning, Steward Wallace PA'' \<and>
   normalizeProviderName (normalizeProviderName ''Manning, Steward Wallace PA '') =
     normalizeProviderName ''Manning, Steward Wallace PA '' \<and>
   wrong_order (trim ''Sloan, MD Mark'') ''Sloan'' ''MD'' ''Mark'' \<and>
   toUpperCase (first_word ''Mark'') \<notin> set NAME_CREDENTIALS \<and>
   normalizeProviderName ''Sloan, MD Mark'' = ''Sloan, Mark MD'' \<and>
   normalizeProviderName (normalizeProviderName ''Sloan, MD Mark'') =
     normalizeProviderName ''Sloan, MD Mark'' \<and>
   wrong_order (trim ''Sloan, md PA Mark'') ''Sloan'' ''md'' ''PA Mark'' \<and>
   toUpperCase (first_word ''PA Mark'') \<in> set NAME_CREDENTIALS \<and>
   toUpperCase (first_word ''PA Mark'') \<noteq> toUpperCase ''md'' \<and>
   normalizeProviderName ''Sloan, md PA Mark'' = ''Sloan, PA Mark MD'' \<and>
   normalizeProviderName (normalizeProviderName ''Sloan, md PA Mark'') = ''Sloan, Mark MD PA'' \<and>
   normalizeProviderName (normalizeProviderName ''Sloan, md PA Mark'') \<noteq>
     normalizeProviderName ''Sloan, md PA Mark'' \<and>
   wrong_order (trim ''Sloan, MD MD'') ''Sloan'' ''MD'' ''MD'' \<and>
   toUpperCase (first_word ''MD'') \<in> set NAME_CREDENTIALS \<and>
   normalizeProviderName (normalizeProviderName ''Sloan, MD MD'') = ''Sloan, MD MD'' \<and>
   normalizeProviderName ''Sloan, MD MD'' = ''Sloan, MD MD''"
proof -
  let ?M = "''Manning, Steward Wallace PA ''"
  let ?A = "''Sloan, MD Mark''"
  let ?B = "''Sloan, md PA Mark''"
  let ?C = "''Sloan, MD MD''"
  have "wrongOrderMatch (trim ?M) = None" by code_simp
  then have m: "\<forall>g1 g2 g3. \<not> wrong_order (trim ?M) g1 g2 g3"
    unfolding wrongOrderMatch_None_iff [OF trim_idem] .
  note tm = normalizeProviderName_twice [of ?M, THEN conjunct1, THEN mp, OF m]
  have tM: "trim ?M = ''Manning, Steward Wallace PA''" by code_simp
  have "wrongOrderMatch (trim ?A) = Some (''Sloan'', ''MD'', ''Mark'')" by code_simp
  then have a: "wrong_order (trim ?A) ''Sloan'' ''MD'' ''Mark''"
    unfolding wrongOrderMatch_iff [OF trim_idem] .
  note ta = normalizeProviderName_twice [of ?A, THEN conjunct2, rule_format, OF a]
  have a1: "toUpperCase (first_word ''Mark'') \<notin> set NAME_CREDENTIALS" by code_simp
  have a2: "''Sloan'' @ '', '' @ ''Mark'' @ '' '' @ toUpperCase ''MD'' = ''Sloan, Mark MD''"
    by code_simp
  have "wrongOrderMatch (trim ?B) = Some (''Sloan'', ''md'', ''PA Mark'')" by code_simp
  then have b: "wrong_order (trim ?B) ''Sloan'' ''md'' ''PA Mark''"
    unfolding wrongOrderMatch_iff [OF trim_idem] .
  note tb = normalizeProviderName_twice [of ?B, THEN conjunct2, rule_format, OF b]
  have b1: "toUpperCase (first_word ''PA Mark'') \<in> set NAME_CREDENTIALS" by code_simp
  have b2: "toUpperCase (first_word ''PA Mark'') \<noteq> toUpperCase ''md''" by code_simp
  have b3: "''Sloan'' @ '', '' @ ''PA Mark'' @ '' '' @ toUpperCase ''md'' = ''Sloan, PA Mark MD''"
    by code_simp
  have b4: "''Sloan'' @ '', '' @
      dropWhile is_space (drop (length (first_word ''PA Mark'')) ''PA Mark'' @ '' '' @
        toUpperCase ''md'') @ '' '' @ toUpperCase (first_word ''PA Mark'') =
      ''Sloan, Mark MD PA''"
    by code_simp
  note tb' = tb [THEN conjunct2, THEN conjunct2, rule_format, OF b1]
  have "wrongOrderMatch (trim ?C) = Some (''Sloan'', ''MD'', ''MD'')" by code_simp
  then have c: "wrong_order (trim ?C) ''Sloan'' ''MD'' ''MD''"
    unfolding wrongOrderMatch_iff [OF trim_idem] .
  note tc = normalizeProviderName_twice [of ?C, THEN conjunct2, rule_format, OF c]
  have c1: "toUpperCase (first_word ''MD'') \<in> set NAME_CREDENTIALS" by code_simp
  have c3: "''Sloan'' @ '', '' @ ''MD'' @ '' '' @ toUpperCase ''MD'' = ''Sloan, MD MD''"
    by code_simp
  have c4: "''Sloan'' @ '', '' @
      dropWhile is_space (drop (length (first_word ''MD'')) ''MD'' @ '' '' @
        toUpperCase ''MD'') @ '' '' @ toUpperCase (first_word ''MD'') =
      ''Sloan, MD MD''"
    by code_simp
  note tc' = tc [THEN conjunct2, THEN conjunct2, rule_format, OF c1]
  show ?thesis
  proof (intro conjI)
    show "\<forall>g1 g2 g3. \<not> wrong_order (trim ?M) g1 g2 g3" by (rule m)
    show "normalizeProviderName ?M = ''Manning, Steward Wallace PA''"
      using tm [THEN conjunct1] unfolding tM .
    show "normalizeProviderName (normalizeProviderName ?M) = normalizeProviderName ?M"
      by (rule tm [THEN conjunct2])
    show "wrong_order (trim ?A) ''Sloan'' ''MD'' ''Mark''" by (rule a)
    show "toUpperCase (first_word ''Mark'') \<notin> set NAME_CREDENTIALS" by (rule a1)
    show "normalizeProviderName ?A = ''Sloan, Mark MD''"
      using ta [THEN conjunct1] unfolding a2 .
    show "normalizeProviderName (normalizeProviderName ?A) = normalizeProviderName ?A"
      by (rule ta [THEN conjunct2, THEN conjunct1, rule_format, OF a1])
    show "wrong_order (trim ?B) ''Sloan'' ''md'' ''PA Mark''" by (rule b)
    show "toUpperCase (first_word ''PA Mark'') \<in> set NAME_CREDENTIALS" by (rule b1)
    show "toUpperCase (first_word ''PA Mark'') \<noteq> toUpperCase ''md''" by (rule b2)
    show "normalizeProviderName ?B = ''Sloan, PA Mark MD''"
      using tb [THEN conjunct1] unfolding b3 .
    show "normalizeProviderName (normalizeProviderName ?B) = ''Sloan, Mark MD PA''"
      using tb' [THEN conjunct1] unfolding b4 .
    show "normalizeProviderName (normalizeProviderName ?B) \<noteq> normalizeProviderName ?B"
      by (rule tb' [THEN conjunct2, rule_format, OF b2])
    show "wrong_order (trim ?C) ''Sloan'' ''MD'' ''MD''" by (rule c)
    show "toUpperCase (first_word ''MD'') \<in> set NAME_CREDENTIALS" by (rule c1)
    show "normalizeProviderName (normalizeProviderName ?C) = ''Sloan, MD MD''"
      using tc' [THEN conjunct1] unfolding c4 .
    show "normalizeProviderName ?C = ''Sloan, MD MD''"
      using tc [THEN conjunct1] unfolding c3 .
  qed
qed

text \<open>
  The given names of \<^verbatim>\<open>Sloan, MD PA Mark\<close> begin with a second credential, and the
  second application moves it as well.
\<close>

theorem normalizeProviderName_idempotent_counterexample:
  "normalizeProviderName ''Sloan, MD PA Mark'' = ''Sloan, PA Mark MD'' \<and>
   normalizeProviderName (normalizeProviderName ''Sloan, MD PA Mark'') = ''Sloan, Mark MD PA'' \<and>
   normalizeProviderName (normalizeProviderName ''Sloan, MD PA Mark'') \<noteq>
     normalizeProviderName ''Sloan, MD PA Mark''"
  by code_simp

section \<open>The payer of a record\<close>

text \<open>
  C9, as the code has it. The payer of every record of the result is an entry of the
  vocabulary, or Unknown, or else the whole trimmed text between the date and the
  disposition, which then is not empty and has neither an entry of the vocabulary nor a
  credential token as a whole word in it.
\<close>

theorem payer_closure:
  assumes "r \<in> set (records (parseDischargeText s))"
  shows "insurance r \<in> set INSURANCE_PATTERNS \<or> insurance r = ''Unknown'' \<or>
    (insurance r \<noteq> [] \<and> trim (insurance r) = insurance r \<and>
     (\<forall>p\<in>set INSURANCE_PATTERNS. \<not> occurs p (insurance r)) \<and>
     \<not> whole_word_credential (insurance r) \<and>
     (\<exists>a u v b. rawText r = a @ dischargeDate r @ u @ insurance r @ v @ b \<and>
        list_all is_space u \<and> list_all is_space v \<and>
        (if disposition r = ''Unknown'' then b = [] else prefix (disposition r) b)))"
proof -
  from assms obtain l where l: "l \<in> set (data_lines s)" "r = parseDischargeRow l"
    by (auto simp: records_parse)
  from l(1) obtain i where e: "find_first epic_at l = Some i" by (auto simp: data_lines_def)
  show ?thesis
  proof (cases "find_first date_at l")
    case None
    from row_without_date(4) [OF None] l(2) show ?thesis by simp
  next
    case (Some j)
    from row_middle [OF e Some] obtain span rest where
      m: "drop (j + 10) l = span @ rest"
         "if disposition r = ''Unknown'' then rest = []
          else span = [] \<or> prefix (disposition r) rest"
         "insurance r = snd (splitPcpAndInsurance (trim span))"
      unfolding l(2) by blast
    let ?t = "trim span"
    from split_ins_cases [of ?t] show ?thesis
    proof (elim disjE conjE)
      assume "snd (splitPcpAndInsurance ?t) \<in> set INSURANCE_PATTERNS"
      with m(3) show ?thesis by simp
    next
      assume "snd (splitPcpAndInsurance ?t) = ''Unknown''"
      with m(3) show ?thesis by simp
    next
      assume h: "snd (splitPcpAndInsurance ?t) = trim ?t" "trim ?t \<noteq> []"
        "\<forall>p\<in>set INSURANCE_PATTERNS. \<not> occurs p ?t" "\<not> whole_word_credential ?t"
      from h(1) m(3) have ins: "insurance r = ?t" by (simp add: trim_idem)
      from h(2) have ne: "?t \<noteq> []" by (simp add: trim_idem)
      then have sne: "span \<noteq> []" by (auto simp: trim_Nil)
      from trim_decomp [of span] obtain u v where
        uv: "span = u @ ?t @ v" "list_all is_space u" "list_all is_space v" by blast
      have dd: "dischargeDate r = take 10 (drop j l)"
        unfolding l(2) by (rule row_with_date(1) [OF e Some])
      from find_first_Some [OF Some] have "date_at (drop j l)" by simp
      have "drop (j + 10) l = drop 10 (drop j l)" by (simp add: add.commute)
      then have "drop j l = take 10 (drop j l) @ drop (j + 10) l"
        by (simp only: append_take_drop_id)
      then have "l = take j l @ take 10 (drop j l) @ drop (j + 10) l"
        by (metis append_take_drop_id)
      moreover from uv(1) have "span @ rest = (u @ ?t @ v) @ rest"
        by (rule arg_cong [where f = "\<lambda>x. x @ rest"])
      ultimately have "l = take j l @ take 10 (drop j l) @ u @ ?t @ v @ rest"
        unfolding m(1) by (simp only: append_assoc)
      then have "rawText r = take j l @ dischargeDate r @ u @ insurance r @ v @ rest"
        unfolding l(2) rawText_row dd [unfolded l(2)] ins [unfolded l(2)] .
      moreover from m(2) sne have
        "if disposition r = ''Unknown'' then rest = [] else prefix (disposition r) rest"
        by (simp split: if_splits)
      ultimately have x: "\<exists>a u v b. rawText r = a @ dischargeDate r @ u @ insurance r @ v @ b \<and>
        list_all is_space u \<and> list_all is_space v \<and>
        (if disposition r = ''Unknown'' then b = [] else prefix (disposition r) b)"
        using uv(2,3) by blast
      from ne h(3,4) x show ?thesis unfolding ins by (simp add: trim_idem)
    qed
  qed
qed

theorem payer_closure_witness:
  "parseDischargeRow ''Doe, JEP123456789 01-15-2025 Grey, Al MD BCBS Home''
     \<in> set (records (parseDischargeText
          ''Doe, JEP123456789 01-15-2025 Grey, Al MD BCBS Home'')) \<and>
   insurance (parseDischargeRow
     ''Doe, JEP123456789 01-15-2025 Grey, Al MD BCBS Home'') = ''BCBS'' \<and>
   (insurance (parseDischargeRow
      ''Doe, JEP123456789 01-15-2025 Grey, Al MD BCBS Home'') \<in> set INSURANCE_PATTERNS \<or>
    insurance (parseDischargeRow
      ''Doe, JEP123456789 01-15-2025 Grey, Al MD BCBS Home'') = ''Unknown'' \<or>
    insurance (parseDischargeRow
      ''Doe, JEP123456789 01-15-2025 Grey, Al MD BCBS Home'') \<noteq> [])"
proof -
  let ?l = "''Doe, JEP123456789 01-15-2025 Grey, Al MD BCBS Home''"
  have "data_lines ?l = [?l]" by code_simp
  then have m: "parseDischargeRow ?l \<in> set (records (parseDischargeText ?l))"
    by (intro record_of_data_line) simp
  have v: "insurance (parseDischargeRow ?l) = ''BCBS''" by code_simp
  from payer_closure [OF m] have
    "insurance (parseDischargeRow ?l) \<in> set INSURANCE_PATTERNS \<or>
     insurance (parseDischargeRow ?l) = ''Unknown'' \<or>
     insurance (parseDischargeRow ?l) \<noteq> []"
    by blast
  with m v show ?thesis by (intro conjI)
qed

text \<open>
  A span that is no entry of the vocabulary is returned as the payer.
\<close>

theorem payer_closure_counterexample:
  "map rawText (records (parseDischargeText ''Test, PatientEP00000000101-01-2024SomePlace'')) =
     [''Test, PatientEP00000000101-01-2024SomePlace''] \<and>
   insurance (parseDischargeRow ''Test, PatientEP00000000101-01-2024SomePlace'') = ''SomePlace'' \<and>
   ''SomePlace'' \<notin> set INSURANCE_PATTERNS \<and> ''SomePlace'' \<noteq> ''Unknown''"
  by code_simp

section \<open>The record identifier\<close>

text \<open>
  C10. Every record that \<^const>\<open>parseDischargeText\<close> produces has an identifier made of
  the letters EP and exactly nine digits; in particular it is not empty, so the penalty
  for a missing identifier is never applied to a record of the result.
\<close>

theorem recordId_shape:
  assumes "r \<in> set (records (parseDischargeText s))"
  shows "epicId r \<noteq> [] \<and>
         (\<exists>ds. epicId r = ''EP'' @ ds \<and> length ds = 9 \<and> list_all is_digit ds)"
proof -
  from assms obtain l where l: "l \<in> set (data_lines s)" "r = parseDischargeRow l"
    by (auto simp: records_parse)
  from l(1) have "find_first epic_at l \<noteq> None" by (simp add: data_lines_def)
  from data_line_epicId [OF this] l(2) show ?thesis by auto
qed

theorem recordId_shape_witness:
  "parseDischargeRow ''Doe, JohnEP12345678901-01-2024Home''
     \<in> set (records (parseDischargeText ''Doe, JohnEP12345678901-01-2024Home'')) \<and>
   epicId (parseDischargeRow ''Doe, JohnEP12345678901-01-2024Home'') = ''EP123456789''"
proof -
  have m: "parseDischargeRow ''Doe, JohnEP12345678901-01-2024Home''
     \<in> set (records (parseDischargeText ''Doe, JohnEP12345678901-01-2024Home''))"
    by code_simp
  have e: "epicId (parseDischargeRow ''Doe, JohnEP12345678901-01-2024Home'') = ''EP123456789''"
    by code_simp
  from recordId_shape [OF m] m e show ?thesis by simp
qed

end
